theory Spec2Isabelle
  imports Complex_Main
begin

section \<open>Data model: exceptions, arrays, the store, the model object\<close>

text \<open>
  The exception classes that the functions of \<^verbatim>\<open>scot/varbase.py\<close> (and the numpy
  calls they make) can raise.  Every raise of the source is an \<open>Inl\<close> result.
\<close>

datatype error =
    ValueError
  | IndexError
  | AttributeError
  | TypeError
  | ZeroDivisionError
  | AssertionError
  | NotImplementedError
  | LinAlgError

text \<open>
  A numpy array is its shape together with its elements.  A rank-2 array is \<open>Mat r c f\<close>
  with \<open>f i j\<close> the element at row \<open>i\<close>, column \<open>j\<close>; a rank-3 array is \<open>Ten a b c f\<close>.
  Elements are real numbers: the arithmetic of the source is modelled exactly, rounding of
  floating point numbers is not part of the model.  Only the elements inside the shape are
  part of the array; every operation below reads and writes inside the shape only.
\<close>

datatype mat = Mat (nrows: nat) (ncols: nat) (ent: "nat \<Rightarrow> nat \<Rightarrow> real")

datatype tensor = Ten (dim0: nat) (dim1: nat) (dim2: nat) (tent: "nat \<Rightarrow> nat \<Rightarrow> nat \<Rightarrow> real")

text \<open>The argument of \<^verbatim>\<open>predict\<close>: an array of shape (channels, samples) or
  (trials, channels, samples).\<close>

datatype ndarray = Rank2 mat | Rank3 tensor

text \<open>Array literals, row by row (used to write concrete inputs).\<close>

definition mat_of_rows :: "real list list \<Rightarrow> mat" where
  "mat_of_rows rs = Mat (length rs) (case rs of [] \<Rightarrow> 0 | r # _ \<Rightarrow> length r) (\<lambda>i j. rs ! i ! j)"

definition ten_of_rows :: "real list list list \<Rightarrow> tensor" where
  "ten_of_rows ts =
     Ten (length ts)
         (case ts of [] \<Rightarrow> 0 | rs # _ \<Rightarrow> length rs)
         (case ts of [] \<Rightarrow> 0 | rs # _ \<Rightarrow> (case rs of [] \<Rightarrow> 0 | r # _ \<Rightarrow> length r))
         (\<lambda>s i n. ts ! s ! i ! n)"

text \<open>Two arrays are the same array when their shapes agree and their elements agree
  at every index inside the shape (\<^verbatim>\<open>numpy.array_equal\<close>).\<close>

definition mat_eq :: "mat \<Rightarrow> mat \<Rightarrow> bool" where
  "mat_eq A B \<longleftrightarrow>
     nrows A = nrows B \<and> ncols A = ncols B \<and>
     (\<forall>i<nrows A. \<forall>j<ncols A. ent A i j = ent B i j)"

text \<open>
  Arrays are objects with identity: \<^verbatim>\<open>from_yw\<close> writes into an array of its caller and
  \<^verbatim>\<open>copy\<close> makes new ones.  The store maps an address to the array that lives there;
  \<open>mtop\<close> and \<open>ttop\<close> are the first addresses not yet in use.
\<close>

record heap =
  mats :: "nat \<Rightarrow> mat"
  mtop :: nat
  tens :: "nat \<Rightarrow> tensor"
  ttop :: nat

definition alloc_mat :: "heap \<Rightarrow> mat \<Rightarrow> nat \<times> heap" where
  "alloc_mat h A = (mtop h, h\<lparr>mats := (mats h)(mtop h := A), mtop := Suc (mtop h)\<rparr>)"

definition alloc_ten :: "heap \<Rightarrow> tensor \<Rightarrow> nat \<times> heap" where
  "alloc_ten h X = (ttop h, h\<lparr>tens := (tens h)(ttop h := X), ttop := Suc (ttop h)\<rparr>)"

text \<open>
  \<^verbatim>\<open>class VARBase\<close>: the field \<^verbatim>\<open>p\<close> is \<open>var_p\<close>; \<^verbatim>\<open>coef\<close>, \<^verbatim>\<open>residuals\<close> and
  \<^verbatim>\<open>rescov\<close> are \<open>None\<close> or a reference to an array in the store.
\<close>

record VARBase =
  var_p :: nat
  coef :: "nat option"
  residuals :: "nat option"
  rescov :: "nat option"
  n_jobs :: "int option"
  verbose :: bool

text \<open>\<^verbatim>\<open>__init__(self, model_order, n_jobs=1, verbose=None)\<close>; \<open>cfg\<close> is the value of
  \<^verbatim>\<open>config.getboolean('scot', 'verbose')\<close>.\<close>

definition init :: "bool \<Rightarrow> nat \<Rightarrow> int option \<Rightarrow> bool option \<Rightarrow> VARBase" where
  "init cfg model_order jobs verb =
     \<lparr>var_p = model_order, coef = None, residuals = None, rescov = None, n_jobs = jobs,
      verbose = (case verb of None \<Rightarrow> cfg | Some v \<Rightarrow> v)\<rparr>"

section \<open>The numpy and scipy operations the source uses\<close>

text \<open>A \<^verbatim>\<open>for\<close> loop whose body can raise: the loop stops at the first exception.\<close>

primrec for_each :: "'i list \<Rightarrow> ('i \<Rightarrow> 's \<Rightarrow> error + 's) \<Rightarrow> 's \<Rightarrow> error + 's" where
  "for_each [] body s = Inr s"
| "for_each (i # is) body s =
     (case body i s of Inl e \<Rightarrow> Inl e | Inr s' \<Rightarrow> for_each is body s')"

text \<open>A list comprehension whose elements can raise.\<close>

primrec collect :: "'i list \<Rightarrow> ('i \<Rightarrow> error + 'a) \<Rightarrow> error + 'a list" where
  "collect [] f = Inr []"
| "collect (i # is) f =
     (case f i of Inl e \<Rightarrow> Inl e
      | Inr x \<Rightarrow> (case collect is f of Inl e \<Rightarrow> Inl e | Inr xs \<Rightarrow> Inr (x # xs)))"

definition zeros :: "nat \<Rightarrow> nat \<Rightarrow> mat" where
  "zeros r c = Mat r c (\<lambda>i j. 0)"

definition zeros3 :: "nat \<Rightarrow> nat \<Rightarrow> nat \<Rightarrow> tensor" where
  "zeros3 a b c = Ten a b c (\<lambda>s i n. 0)"

definition eye :: "nat \<Rightarrow> mat" where
  "eye m = Mat m m (\<lambda>i j. if i = j then 1 else 0)"

text \<open>\<^verbatim>\<open>A.T\<close>\<close>

definition transpose_mat :: "mat \<Rightarrow> mat" where
  "transpose_mat A = Mat (ncols A) (nrows A) (\<lambda>i j. ent A j i)"

text \<open>\<^verbatim>\<open>numpy.dot\<close> of two rank-2 arrays: the inner dimensions must agree.\<close>

definition dot :: "mat \<Rightarrow> mat \<Rightarrow> error + mat" where
  "dot A B =
     (if ncols A \<noteq> nrows B then Inl ValueError
      else Inr (Mat (nrows A) (ncols B)
                  (\<lambda>i j. sum_list (map (\<lambda>k. ent A i k * ent B k j) [0..<ncols A]))))"

text \<open>Concatenation of two arrays along the columns and along the rows.\<close>

definition hstack2 :: "mat \<Rightarrow> mat \<Rightarrow> mat" where
  "hstack2 A B =
     Mat (nrows A) (ncols A + ncols B)
       (\<lambda>i j. if j < ncols A then ent A i j else ent B i (j - ncols A))"

definition vstack2 :: "mat \<Rightarrow> mat \<Rightarrow> mat" where
  "vstack2 A B =
     Mat (nrows A + nrows B) (ncols A)
       (\<lambda>i j. if i < nrows A then ent A i j else ent B (i - nrows A) j)"

text \<open>\<^verbatim>\<open>numpy.hstack\<close> (concatenation along axis 1): raises on an empty sequence and
  when the numbers of rows differ.\<close>

fun hstack :: "mat list \<Rightarrow> error + mat" where
  "hstack [] = Inl ValueError"
| "hstack [A] = Inr A"
| "hstack (A # B # Bs) =
     (case hstack (B # Bs) of
        Inl e \<Rightarrow> Inl e
      | Inr R \<Rightarrow> if nrows A \<noteq> nrows R then Inl ValueError else Inr (hstack2 A R))"

text \<open>\<^verbatim>\<open>numpy.vstack\<close>, \<^verbatim>\<open>numpy.concatenate(..., 0)\<close>: raises on an empty sequence and
  when the numbers of columns differ.\<close>

fun vstack :: "mat list \<Rightarrow> error + mat" where
  "vstack [] = Inl ValueError"
| "vstack [A] = Inr A"
| "vstack (A # B # Bs) =
     (case vstack (B # Bs) of
        Inl e \<Rightarrow> Inl e
      | Inr R \<Rightarrow> if ncols A \<noteq> ncols R then Inl ValueError else Inr (vstack2 A R))"

text \<open>\<^verbatim>\<open>scipy.linalg.block_diag(A, B)\<close>\<close>

definition block_diag :: "mat \<Rightarrow> mat \<Rightarrow> mat" where
  "block_diag A B =
     Mat (nrows A + nrows B) (ncols A + ncols B)
       (\<lambda>i j. if i < nrows A \<and> j < ncols A then ent A i j
               else if nrows A \<le> i \<and> ncols A \<le> j then ent B (i - nrows A) (j - ncols A)
               else 0)"

text \<open>
  The number of indices of the slice \<^verbatim>\<open>start::step\<close> of an axis of length \<open>n\<close>
  (\<open>start\<close> not negative, \<open>step\<close> positive): the indices are \<open>start + j * step\<close>.
\<close>

definition step_count :: "nat \<Rightarrow> nat \<Rightarrow> nat \<Rightarrow> nat" where
  "step_count n start step = (n - min start n + step - 1) div step"

text \<open>\<^verbatim>\<open>A[:, start::step]\<close>: a slice step of zero raises.\<close>

definition cols_step :: "mat \<Rightarrow> nat \<Rightarrow> nat \<Rightarrow> error + mat" where
  "cols_step A start step =
     (if step = 0 then Inl ValueError
      else Inr (Mat (nrows A) (step_count (ncols A) start step)
                  (\<lambda>i j. ent A i (start + j * step))))"

text \<open>\<^verbatim>\<open>A[start::step, :]\<close>\<close>

definition rows_step :: "mat \<Rightarrow> nat \<Rightarrow> nat \<Rightarrow> error + mat" where
  "rows_step A start step =
     (if step = 0 then Inl ValueError
      else Inr (Mat (step_count (nrows A) start step) (ncols A)
                  (\<lambda>i j. ent A (start + i * step) j)))"

text \<open>\<^verbatim>\<open>A[a:b, :]\<close> for bounds that are not negative: both are clipped to the number of
  rows.\<close>

definition rows_slice :: "mat \<Rightarrow> nat \<Rightarrow> nat \<Rightarrow> mat" where
  "rows_slice A a b =
     Mat (min b (nrows A) - min a (nrows A)) (ncols A) (\<lambda>i j. ent A (min a (nrows A) + i) j)"

section \<open>\<^verbatim>\<open>is_stable\<close>\<close>

text \<open>
  \<open>eig\<close> stands for \<^verbatim>\<open>numpy.linalg.eig(tmp)[0]\<close>, the eigenvalues of the companion matrix
  (or the exception that numpy raises).  A model whose \<^verbatim>\<open>coef\<close> is \<^verbatim>\<open>None\<close> has no
  attribute \<^verbatim>\<open>shape\<close>; the integer division by \<open>m = 0\<close> raises; the \<^verbatim>\<open>assert\<close> raises.
\<close>

definition is_stable :: "(mat \<Rightarrow> error + complex list) \<Rightarrow> heap \<Rightarrow> VARBase \<Rightarrow> error + bool" where
  "is_stable eig h self =
     (case coef self of
        None \<Rightarrow> Inl AttributeError
      | Some a \<Rightarrow>
          let cf = mats h a; m = nrows cf; mp = ncols cf in
          if m = 0 then Inl ZeroDivisionError
          else
            let p = mp div m in
            if mp \<noteq> m * p then Inl AssertionError
            else
              (case collect [0..<p] (\<lambda>i. cols_step cf i p) of
                 Inl e \<Rightarrow> Inl e
               | Inr blocks \<Rightarrow>
                   (case hstack blocks of
                      Inl e \<Rightarrow> Inl e
                    | Inr top_block \<Rightarrow>
                        let im = eye m;
                            eye_block = ((block_diag im) ^^ (p - 2)) im
                        in (case hstack [eye_block, zeros (m * (p - 1)) m] of
                              Inl e \<Rightarrow> Inl e
                            | Inr eye_block' \<Rightarrow>
                                (case vstack [top_block, eye_block'] of
                                   Inl e \<Rightarrow> Inl e
                                 | Inr tmp \<Rightarrow>
                                     (case eig tmp of
                                        Inl e \<Rightarrow> Inl e
                                      | Inr ev \<Rightarrow> Inr (list_all (\<lambda>z. cmod z < 1) ev)))))))"


section \<open>\<^verbatim>\<open>copy\<close>\<close>

text \<open>
  \<^verbatim>\<open>other = self.__class__(self.p)\<close> builds a new model with the default \<^verbatim>\<open>n_jobs\<close> and
  the configured verbosity; then the three arrays are copied in turn.  Calling
  \<^verbatim>\<open>.copy()\<close> on \<^verbatim>\<open>None\<close> raises \<^verbatim>\<open>AttributeError\<close>; arrays copied before that stay
  allocated.
\<close>

definition copy :: "bool \<Rightarrow> heap \<Rightarrow> VARBase \<Rightarrow> (error + VARBase) \<times> heap" where
  "copy cfg h self =
     (let other = init cfg (var_p self) (Some 1) None in
      case coef self of
        None \<Rightarrow> (Inl AttributeError, h)
      | Some a \<Rightarrow>
          let (a', h1) = alloc_mat h (mats h a) in
          (case residuals self of
             None \<Rightarrow> (Inl AttributeError, h1)
           | Some r \<Rightarrow>
               let (r', h2) = alloc_ten h1 (tens h1 r) in
               (case rescov self of
                  None \<Rightarrow> (Inl AttributeError, h2)
                | Some c \<Rightarrow>
                    let (c', h3) = alloc_mat h2 (mats h2 c) in
                    (Inr (other\<lparr>coef := Some a', residuals := Some r', rescov := Some c'\<rparr>),
                     h3))))"

section \<open>\<^verbatim>\<open>from_yw\<close>\<close>

text \<open>
  \<open>acms\<close> is the sequence of the autocorrelation matrices, each a reference into the store
  (an element of a list of arrays, or the view \<^verbatim>\<open>acms[l]\<close> of a rank-3 array).
  \<^verbatim>\<open>acm = lambda l: acms[l] if l >= 0 else acms[-l].T\<close>
\<close>

definition acm_at :: "heap \<Rightarrow> nat list \<Rightarrow> int \<Rightarrow> error + mat" where
  "acm_at h acms l =
     (let i = nat \<bar>l\<bar> in
      if length acms \<le> i then Inl IndexError
      else Inr (if 0 \<le> l then mats h (acms ! i) else transpose_mat (mats h (acms ! i))))"

text \<open>\<^verbatim>\<open>np.array\<close> of a nested list of arrays needs one shape for all of them.\<close>

definition homogeneous :: "mat list \<Rightarrow> bool" where
  "homogeneous As \<longleftrightarrow>
     (case As of [] \<Rightarrow> True
      | A # _ \<Rightarrow> list_all (\<lambda>B. nrows B = nrows A \<and> ncols B = ncols A) As)"

text \<open>
  The right-hand side \<^verbatim>\<open>r = np.concatenate(acms[1:], 0)\<close> and the block Toeplitz matrix
  \<^verbatim>\<open>rr\<close>: the inner \<^verbatim>\<open>np.concatenate(rr, -2)\<close> stacks, for every column lag \<open>k\<close>, the blocks
  \<^verbatim>\<open>acm(m - k)\<close> over the row lags \<open>m\<close>; the outer one puts these columns side by side.
\<close>

definition yw_system :: "heap \<Rightarrow> nat list \<Rightarrow> nat \<Rightarrow> error + (mat \<times> mat)" where
  "yw_system h acms p =
     (case vstack (map (mats h) (tl acms)) of
        Inl e \<Rightarrow> Inl e
      | Inr r \<Rightarrow>
          (case collect [0..<p] (\<lambda>m. collect [0..<p] (\<lambda>k. acm_at h acms (int m - int k))) of
             Inl e \<Rightarrow> Inl e
           | Inr blocks \<Rightarrow>
               if \<not> homogeneous (concat blocks) then Inl ValueError
               else
                 (case collect [0..<p] (\<lambda>k. vstack (map (\<lambda>row. row ! k) blocks)) of
                    Inl e \<Rightarrow> Inl e
                  | Inr cols \<Rightarrow>
                      (case hstack cols of Inl e \<Rightarrow> Inl e | Inr rr \<Rightarrow> Inr (rr, r)))))"

text \<open>Broadcasting of an axis of length one.\<close>

definition bidx :: "nat \<Rightarrow> nat \<Rightarrow> nat" where
  "bidx d i = (if d = 1 then 0 else i)"

text \<open>\<^verbatim>\<open>R -= X\<close>: \<open>X\<close> must have the shape of \<open>R\<close>, up to axes of length one.\<close>

definition isub :: "mat \<Rightarrow> mat \<Rightarrow> error + mat" where
  "isub R X =
     (if (nrows X = nrows R \<or> nrows X = 1) \<and> (ncols X = ncols R \<or> ncols X = 1)
      then Inr (Mat (nrows R) (ncols R)
                  (\<lambda>i j. ent R i j - ent X (bidx (nrows X) i) (bidx (ncols X) j)))
      else Inl ValueError)"

text \<open>
  The loop \<^verbatim>\<open>for k in range(self.p): r -= np.dot(c[bs:bs + n_channels, :].T, acm(k + 1))\<close>.
  \<^verbatim>\<open>r\<close> is \<^verbatim>\<open>acm(0)\<close>, that is the array \<^verbatim>\<open>acms[0]\<close> itself, so every step writes the
  store at that address; \<^verbatim>\<open>acm(k + 1)\<close> is read from the store as it is at that step.
  The result is the exception raised (if any) and the store at that point.
\<close>

primrec yw_rescov :: "mat \<Rightarrow> nat \<Rightarrow> nat list \<Rightarrow> nat list \<Rightarrow> heap \<Rightarrow> error option \<times> heap" where
  "yw_rescov c n_channels acms [] h = (None, h)"
| "yw_rescov c n_channels acms (k # ks) h =
     (let bs = k * n_channels in
      case acm_at h acms (int k + 1) of
        Inl e \<Rightarrow> (Some e, h)
      | Inr ak \<Rightarrow>
          (case dot (transpose_mat (rows_slice c bs (bs + n_channels))) ak of
             Inl e \<Rightarrow> (Some e, h)
           | Inr X \<Rightarrow>
               (case isub (mats h (acms ! 0)) X of
                  Inl e \<Rightarrow> (Some e, h)
                | Inr r' \<Rightarrow>
                    yw_rescov c n_channels acms ks (h\<lparr>mats := (mats h)(acms ! 0 := r')\<rparr>))))"

text \<open>
  \<open>solve\<close> stands for \<^verbatim>\<open>scipy.linalg.solve\<close>.  The length check comes first; an exception
  leaves the model object as it was; the new coefficient array is allocated, and
  \<^verbatim>\<open>self.rescov = r\<close> stores the reference \<^verbatim>\<open>acms[0]\<close>.
\<close>

definition from_yw ::
  "(mat \<Rightarrow> mat \<Rightarrow> error + mat) \<Rightarrow> heap \<Rightarrow> VARBase \<Rightarrow> nat list \<Rightarrow> (error + VARBase) \<times> heap" where
  "from_yw solve h self acms =
     (if length acms \<noteq> var_p self + 1 then (Inl ValueError, h)
      else
        let n_channels = nrows (mats h (acms ! 0)) in
        case yw_system h acms (var_p self) of
          Inl e \<Rightarrow> (Inl e, h)
        | Inr (rr, r) \<Rightarrow>
            (case solve rr r of
               Inl e \<Rightarrow> (Inl e, h)
             | Inr c \<Rightarrow>
                 (case yw_rescov c n_channels acms [0..<var_p self] h of
                    (Some e, h') \<Rightarrow> (Inl e, h')
                  | (None, h') \<Rightarrow>
                      (case collect [0..<n_channels] (\<lambda>m. rows_step c m n_channels) of
                         Inl e \<Rightarrow> (Inl e, h')
                       | Inr parts \<Rightarrow>
                           (case vstack parts of
                              Inl e \<Rightarrow> (Inl e, h')
                            | Inr cc \<Rightarrow>
                                let (a, h'') = alloc_mat h' (transpose_mat cc) in
                                (Inr (self\<lparr>coef := Some a, rescov := Some (acms ! 0)\<rparr>),
                                 h''))))))"

section \<open>\<^verbatim>\<open>predict\<close>\<close>

text \<open>
  Modelled from the spec: \<^verbatim>\<open>atleast_3d\<close> of \<^verbatim>\<open>scot/datatools.py\<close> is not among the
  sources; the spec has it promote an array of shape (channels, samples) to shape
  (1, channels, samples) and leave a rank-3 array as it is.
\<close>

definition atleast_3d :: "ndarray \<Rightarrow> tensor" where
  "atleast_3d x =
     (case x of
        Rank2 A \<Rightarrow> Ten 1 (nrows A) (ncols A) (\<lambda>s i n. ent A i n)
      | Rank3 X \<Rightarrow> X)"

text \<open>\<^verbatim>\<open>x.shape\<close>\<close>

definition shape :: "ndarray \<Rightarrow> nat list" where
  "shape x =
     (case x of
        Rank2 A \<Rightarrow> [nrows A, ncols A]
      | Rank3 X \<Rightarrow> [dim0 X, dim1 X, dim2 X])"

text \<open>\<^verbatim>\<open>data[:, :, n]\<close>, an array of shape (trials, channels).\<close>

definition sample_slab :: "tensor \<Rightarrow> nat \<Rightarrow> mat" where
  "sample_slab x n = Mat (dim0 x) (dim1 x) (\<lambda>s j. tent x s j n)"

text \<open>\<^verbatim>\<open>y[:, :, n] += X\<close>: \<open>X\<close> is broadcast to the shape (trials, channels).\<close>

definition iadd_slab :: "tensor \<Rightarrow> nat \<Rightarrow> mat \<Rightarrow> error + tensor" where
  "iadd_slab y n X =
     (if (nrows X = dim0 y \<or> nrows X = 1) \<and> (ncols X = dim1 y \<or> ncols X = 1)
      then Inr (Ten (dim0 y) (dim1 y) (dim2 y)
                  (\<lambda>s i n'. if n' = n \<and> s < dim0 y \<and> i < dim1 y \<and> n < dim2 y
                             then tent y s i n' + ent X (bidx (nrows X) s) (bidx (ncols X) i)
                             else tent y s i n'))
      else Inl ValueError)"

text \<open>A bound of a slice of an axis of length \<open>n\<close>: a negative bound counts from the end,
  and every bound is clipped to the axis.\<close>

definition slice_bound :: "nat \<Rightarrow> int \<Rightarrow> nat" where
  "slice_bound n i = (if i < 0 then nat (int n + i) else min n (nat i))"

text \<open>\<^verbatim>\<open>data[s, :, a:b]\<close>, an array of shape (channels, length of the slice).\<close>

definition trial_window :: "tensor \<Rightarrow> nat \<Rightarrow> int \<Rightarrow> int \<Rightarrow> mat" where
  "trial_window x s a b =
     (let lo = slice_bound (dim2 x) a; hi = slice_bound (dim2 x) b in
      Mat (dim1 x) (hi - lo) (\<lambda>j n. tent x s j (lo + n)))"

text \<open>\<^verbatim>\<open>y[s, :, p:] += X\<close>: \<open>X\<close> is broadcast to the shape (channels, samples from \<open>p\<close> on).\<close>

definition iadd_trial :: "tensor \<Rightarrow> nat \<Rightarrow> nat \<Rightarrow> mat \<Rightarrow> error + tensor" where
  "iadd_trial y s p X =
     (let w = dim2 y - min p (dim2 y) in
      if (nrows X = dim1 y \<or> nrows X = 1) \<and> (ncols X = w \<or> ncols X = 1)
      then Inr (Ten (dim0 y) (dim1 y) (dim2 y)
                  (\<lambda>s' i n. if s' = s \<and> s < dim0 y \<and> i < dim1 y \<and> p \<le> n \<and> n < dim2 y
                             then tent y s' i n + ent X (bidx (nrows X) i) (bidx (ncols X) (n - p))
                             else tent y s' i n))
      else Inl ValueError)"

text \<open>
  The first loop strategy of \<^verbatim>\<open>predict\<close>: for every lag \<open>k\<close> and every sample \<open>n\<close> from
  \<open>p\<close> on, \<^verbatim>\<open>y[:, :, n] += np.dot(data[:, :, n - k], bp.T)\<close>.
\<close>

definition predict_lag_sample :: "mat \<Rightarrow> tensor \<Rightarrow> nat \<Rightarrow> tensor \<Rightarrow> error + tensor" where
  "predict_lag_sample cf x p y0 =
     for_each [1..<Suc p]
       (\<lambda>k y. case cols_step cf (k - 1) p of
                 Inl e \<Rightarrow> Inl e
               | Inr bp \<Rightarrow>
                   for_each [p..<dim2 x]
                     (\<lambda>n y. case dot (sample_slab x (n - k)) (transpose_mat bp) of
                               Inl e \<Rightarrow> Inl e
                             | Inr X \<Rightarrow> iadd_slab y n X)
                     y)
       y0"

text \<open>
  The second loop strategy: for every lag \<open>k\<close> and every trial \<open>s\<close>,
  \<^verbatim>\<open>y[s, :, p:] += np.dot(bp, data[s, :, (p - k):(l - k)])\<close>.
\<close>

definition predict_lag_trial :: "mat \<Rightarrow> tensor \<Rightarrow> nat \<Rightarrow> tensor \<Rightarrow> error + tensor" where
  "predict_lag_trial cf x p y0 =
     for_each [1..<Suc p]
       (\<lambda>k y. case cols_step cf (k - 1) p of
                 Inl e \<Rightarrow> Inl e
               | Inr bp \<Rightarrow>
                   for_each [0..<dim0 x]
                     (\<lambda>s y. case dot bp (trial_window x s (int p - int k) (int (dim2 x) - int k)) of
                               Inl e \<Rightarrow> Inl e
                             | Inr X \<Rightarrow> iadd_trial y s p X)
                     y)
       y0"

text \<open>
  \<^verbatim>\<open>np.shape(None)\<close> is the empty tuple, whose element 1 does not exist; the division by
  \<open>m = 0\<close> raises; \<^verbatim>\<open>int(n / m)\<close> is the quotient rounded down.
\<close>

definition predict :: "heap \<Rightarrow> VARBase \<Rightarrow> ndarray \<Rightarrow> error + tensor" where
  "predict h self data0 =
     (let x = atleast_3d data0; t = dim0 x; m = dim1 x; l = dim2 x in
      case coef self of
        None \<Rightarrow> Inl IndexError
      | Some a \<Rightarrow>
          let cf = mats h a in
          if m = 0 then Inl ZeroDivisionError
          else
            let p = ncols cf div m; y = zeros3 t m l in
            if int l - int p < int t then predict_lag_sample cf x p y
            else predict_lag_trial cf x p y)"

section \<open>\<^verbatim>\<open>simulate\<close>\<close>

text \<open>A rank-1 array.\<close>

datatype vec = Vec (vlen: nat) (vent: "nat \<Rightarrow> real")

text \<open>The argument \<^verbatim>\<open>l\<close>: a number of samples, or the samples and the trials.\<close>

datatype length_arg = Samples nat | SamplesTrials nat nat

text \<open>
  What \<^verbatim>\<open>simulate\<close> takes from outside the module, over the state \<open>'g\<close> of the random
  number generator: \<open>normal g m\<close> is \<^verbatim>\<open>rng.normal(size=(1, m))\<close>, one value per channel;
  \<open>cat_trials\<close> is the function of \<^verbatim>\<open>scot/datatools.py\<close>; \<open>np_cov X\<close> is
  \<^verbatim>\<open>np.cov(X, rowvar=False)\<close>.
\<close>

record 'g sim_env =
  normal :: "'g \<Rightarrow> nat \<Rightarrow> vec \<times> 'g"
  cat_trials :: "tensor \<Rightarrow> mat"
  np_cov :: "mat \<Rightarrow> mat"

text \<open>\<^verbatim>\<open>y[i, :, s] = e\<close>: \<open>e\<close> has one value per channel, or a single value for all.\<close>

definition assign_sample :: "tensor \<Rightarrow> nat \<Rightarrow> nat \<Rightarrow> vec \<Rightarrow> error + tensor" where
  "assign_sample y i s e =
     (if vlen e = dim1 y \<or> vlen e = 1
      then Inr (Ten (dim0 y) (dim1 y) (dim2 y)
                  (\<lambda>i' c s'. if i' = i \<and> s' = s \<and> i < dim0 y \<and> c < dim1 y \<and> s < dim2 y
                              then vent e (bidx (vlen e) c) else tent y i' c s'))
      else Inl ValueError)"

text \<open>\<^verbatim>\<open>y[i, :, s]\<close>\<close>

definition sample_at :: "tensor \<Rightarrow> nat \<Rightarrow> nat \<Rightarrow> vec" where
  "sample_at y i s = Vec (dim1 y) (\<lambda>c. tent y i c s)"

text \<open>\<^verbatim>\<open>A.dot(v)\<close> for a rank-1 array \<open>v\<close>\<close>

definition dot_vec :: "mat \<Rightarrow> vec \<Rightarrow> error + vec" where
  "dot_vec A v =
     (if ncols A \<noteq> vlen v then Inl ValueError
      else Inr (Vec (nrows A) (\<lambda>i. sum_list (map (\<lambda>j. ent A i j * vent v j) [0..<ncols A]))))"

text \<open>\<^verbatim>\<open>y[i, :, s] += w\<close>\<close>

definition iadd_sample :: "tensor \<Rightarrow> nat \<Rightarrow> nat \<Rightarrow> vec \<Rightarrow> error + tensor" where
  "iadd_sample y i s w =
     (if vlen w = dim1 y \<or> vlen w = 1
      then Inr (Ten (dim0 y) (dim1 y) (dim2 y)
                  (\<lambda>i' c s'. if i' = i \<and> s' = s \<and> i < dim0 y \<and> c < dim1 y \<and> s < dim2 y
                              then tent y i' c s' + vent w (bidx (vlen w) c) else tent y i' c s'))
      else Inl ValueError)"

text \<open>The body of the loop \<^verbatim>\<open>for i in range(p)\<close>: a draw, stored in \<^verbatim>\<open>res\<close> and in \<^verbatim>\<open>y\<close>.
  The state of the loops is \<open>(y, res, g)\<close>.\<close>

definition sim_warm ::
  "('g \<Rightarrow> vec \<times> 'g) \<Rightarrow> nat \<Rightarrow> nat \<Rightarrow> tensor \<times> tensor \<times> 'g \<Rightarrow> error + tensor \<times> tensor \<times> 'g" where
  "sim_warm noisefunc s i st =
     (case st of (y, res, g) \<Rightarrow>
        (case noisefunc g of (e, g') \<Rightarrow>
           (case assign_sample res i s e of
              Inl er \<Rightarrow> Inl er
            | Inr res' \<Rightarrow>
                (case assign_sample y i s e of
                   Inl er \<Rightarrow> Inl er
                 | Inr y' \<Rightarrow> Inr (y', res', g')))))"

text \<open>The body of the loop \<^verbatim>\<open>for i in range(p, n)\<close>: a draw, then
  \<^verbatim>\<open>y[i, :, s] += self.coef[:, (k - 1)::p].dot(y[i - k, :, s])\<close> for every lag \<open>k\<close>.\<close>

definition sim_step ::
  "mat \<Rightarrow> nat \<Rightarrow> ('g \<Rightarrow> vec \<times> 'g) \<Rightarrow> nat \<Rightarrow> nat \<Rightarrow> tensor \<times> tensor \<times> 'g
     \<Rightarrow> error + tensor \<times> tensor \<times> 'g" where
  "sim_step cf p noisefunc s i st =
     (case sim_warm noisefunc s i st of
        Inl er \<Rightarrow> Inl er
      | Inr (y, res, g) \<Rightarrow>
          (case for_each [1..<Suc p]
                  (\<lambda>k y. case cols_step cf (k - 1) p of
                            Inl er \<Rightarrow> Inl er
                          | Inr bp \<Rightarrow>
                              (case dot_vec bp (sample_at y (i - k) s) of
                                 Inl er \<Rightarrow> Inl er
                               | Inr w \<Rightarrow> iadd_sample y i s w))
                  y of
             Inl er \<Rightarrow> Inl er
           | Inr y' \<Rightarrow> Inr (y', res, g)))"

text \<open>The body of the loop \<^verbatim>\<open>for s in range(t)\<close>.\<close>

definition sim_trial ::
  "mat \<Rightarrow> nat \<Rightarrow> nat \<Rightarrow> ('g \<Rightarrow> vec \<times> 'g) \<Rightarrow> nat \<Rightarrow> tensor \<times> tensor \<times> 'g
     \<Rightarrow> error + tensor \<times> tensor \<times> 'g" where
  "sim_trial cf p n noisefunc s st =
     (case for_each [0..<p] (sim_warm noisefunc s) st of
        Inl er \<Rightarrow> Inl er
      | Inr st' \<Rightarrow> for_each [p..<n] (sim_step cf p noisefunc s) st')"

text \<open>\<^verbatim>\<open>a[start:, :, :].transpose([2, 1, 0])\<close>, which is also \<^verbatim>\<open>a[start:, :, :].T\<close>.\<close>

definition drop_transpose :: "tensor \<Rightarrow> nat \<Rightarrow> tensor" where
  "drop_transpose a start =
     Ten (dim2 a) (dim1 a) (dim0 a - min start (dim0 a))
       (\<lambda>s c j. tent a (min start (dim0 a) + j) c s)"

text \<open>
  \<^verbatim>\<open>m, n = np.shape(self.coef)\<close> cannot unpack the empty shape of \<^verbatim>\<open>None\<close>
  (\<^verbatim>\<open>ValueError\<close>); \<^verbatim>\<open>n // m\<close> raises for \<open>m = 0\<close>.  \<open>noisefunc\<close> is the caller's noise
  function or \<open>None\<close>.  The result is the generated data, the model with its new
  \<^verbatim>\<open>residuals\<close> and \<^verbatim>\<open>rescov\<close>, the store and the state of the generator.
\<close>

definition simulate ::
  "'g sim_env \<Rightarrow> heap \<Rightarrow> VARBase \<Rightarrow> length_arg \<Rightarrow> ('g \<Rightarrow> vec \<times> 'g) option \<Rightarrow> 'g
     \<Rightarrow> error + tensor \<times> VARBase \<times> heap \<times> 'g" where
  "simulate E h self larg noisefunc0 g0 =
     (case coef self of
        None \<Rightarrow> Inl ValueError
      | Some a \<Rightarrow>
          let cf = mats h a; m = nrows cf; n0 = ncols cf in
          if m = 0 then Inl ZeroDivisionError
          else
            let p = n0 div m;
                (l, t) = (case larg of Samples l \<Rightarrow> (l, 1) | SamplesTrials l t \<Rightarrow> (l, t));
                noisefunc = (case noisefunc0 of None \<Rightarrow> (\<lambda>g. normal E g m) | Some f \<Rightarrow> f);
                n = l + 10 * p
            in (case for_each [0..<t] (sim_trial cf p n noisefunc) (zeros3 n m t, zeros3 n m t, g0) of
                  Inl er \<Rightarrow> Inl er
                | Inr (y, res, g) \<Rightarrow>
                    let (ra, h1) = alloc_ten h (drop_transpose res (10 * p));
                        (ca, h2) = alloc_mat h1 (np_cov E (transpose_mat (cat_trials E (tens h1 ra))))
                    in Inr (drop_transpose y (10 * p),
                            self\<lparr>residuals := Some ra, rescov := Some ca\<rparr>, h2, g)))"

section \<open>The whiteness test\<close>

text \<open>
  What the test takes from outside the module: \<open>acm x l\<close> is the autocorrelation matrix
  of \<^verbatim>\<open>scot.datatools\<close> at lag \<open>l\<close>; \<open>lu_factor\<close> and \<open>lu_solve\<close> are the routines of
  \<^verbatim>\<open>scipy.linalg\<close>, over the type \<open>'f\<close> of factorisations; \<open>permutation g x\<close> is
  \<^verbatim>\<open>rng.permutation(x.T).T\<close> with the next state of the generator.
\<close>

record ('f, 'g) white_env =
  acm :: "tensor \<Rightarrow> nat \<Rightarrow> mat"
  lu_factor :: "mat \<Rightarrow> 'f"
  lu_solve :: "'f \<Rightarrow> mat \<Rightarrow> mat"
  permutation :: "'g \<Rightarrow> tensor \<Rightarrow> tensor \<times> 'g"

text \<open>\<^verbatim>\<open>A.trace()\<close>\<close>

definition trace :: "mat \<Rightarrow> real" where
  "trace A = sum_list (map (\<lambda>i. ent A i i) [0..<min (nrows A) (ncols A)])"

text \<open>\<^verbatim>\<open>q[r, l] = v\<close>\<close>

definition set_ent :: "mat \<Rightarrow> nat \<Rightarrow> nat \<Rightarrow> real \<Rightarrow> mat" where
  "set_ent q r l v =
     Mat (nrows q) (ncols q)
       (\<lambda>i j. if i = r \<and> j = l \<and> r < nrows q \<and> l < ncols q then v else ent q i j)"

text \<open>\<^verbatim>\<open>q *= c\<close>, \<^verbatim>\<open>q[r, :] *= c\<close> and \<^verbatim>\<open>np.cumsum(q, axis=1)\<close>\<close>

definition scale :: "mat \<Rightarrow> real \<Rightarrow> mat" where
  "scale q c = Mat (nrows q) (ncols q) (\<lambda>i j. ent q i j * c)"

definition scale_row :: "mat \<Rightarrow> nat \<Rightarrow> real \<Rightarrow> mat" where
  "scale_row q r c = Mat (nrows q) (ncols q) (\<lambda>i j. if i = r then ent q i j * c else ent q i j)"

definition cumsum :: "mat \<Rightarrow> mat" where
  "cumsum q = Mat (nrows q) (ncols q) (\<lambda>i j. sum_list (map (\<lambda>k. ent q i k) [0..<Suc j]))"

text \<open>
  The value \<^verbatim>\<open>tmp\<close> of the first loop of \<^verbatim>\<open>_calc_q_statistic\<close> at lag \<open>l\<close>:
  \<^verbatim>\<open>a = lu_solve(c0f, cl)\<close>, \<^verbatim>\<open>b = lu_solve(c0f, cl.T)\<close>, \<^verbatim>\<open>tmp = a.dot(b).trace()\<close>.
\<close>

definition q_tmp :: "('f, 'g) white_env \<Rightarrow> tensor \<Rightarrow> nat \<Rightarrow> error + real" where
  "q_tmp E x l =
     (let c0f = lu_factor E (acm E x 0);
          cl = acm E x l;
          a = lu_solve E c0f cl;
          b = lu_solve E c0f (transpose_mat cl)
      in case dot a b of Inl e \<Rightarrow> Inl e | Inr ab \<Rightarrow> Inr (trace ab))"

text \<open>
  \<^verbatim>\<open>_calc_q_statistic(x, h, nt)\<close>.  \<^verbatim>\<open>np.zeros((3, h + 1))\<close> raises for a negative
  dimension.  The quotient \<^verbatim>\<open>tmp / (nt - l)\<close> is a floating point division, which does
  not raise; for \<open>nt = l\<close> numpy yields an infinity or a NaN, which the real numbers of
  this model do not have (the model's quotient by zero is zero), so statements about the
  result ask for \<open>nt \<noteq> l\<close>.  The quotient of the last loop is a division of Python integers.
\<close>

definition calc_q_statistic :: "('f, 'g) white_env \<Rightarrow> tensor \<Rightarrow> int \<Rightarrow> int \<Rightarrow> error + mat" where
  "calc_q_statistic E x h nt =
     (let m = dim1 x in
      if h + 1 < 0 then Inl ValueError
      else
        (case for_each [1..<Suc (nat h)]
                (\<lambda>l q. case q_tmp E x l of
                          Inl e \<Rightarrow> Inl e
                        | Inr tmp \<Rightarrow>
                            Inr (set_ent
                                   (set_ent (set_ent q 0 l tmp) 1 l (tmp / real_of_int (nt - int l)))
                                   2 l tmp))
                (zeros 3 (nat (h + 1))) of
           Inl e \<Rightarrow> Inl e
         | Inr q1 \<Rightarrow>
             let q2 = scale q1 (real_of_int nt);
                 q3 = scale_row q2 1 (real_of_int (nt + 2));
                 q4 = cumsum q3
             in for_each [1..<Suc (nat h)]
                  (\<lambda>l q. if 2 * nt = 0 then Inl ZeroDivisionError
                          else Inr (set_ent q 2 l
                                      (ent q 0 l + real (m * m * l * (l + 1)) / real_of_int (2 * nt))))
                  q4))"

text \<open>
  \<^verbatim>\<open>_calc_q_h0(n, x, h, nt)\<close>: \<open>n\<close> times, a permutation of the samples is drawn and its
  statistics are computed; the results are kept in the order of the draws.
\<close>

primrec calc_q_h0 ::
  "('f, 'g) white_env \<Rightarrow> nat \<Rightarrow> tensor \<Rightarrow> int \<Rightarrow> int \<Rightarrow> 'g \<Rightarrow> error + mat list \<times> 'g" where
  "calc_q_h0 E 0 x h nt g = Inr ([], g)"
| "calc_q_h0 E (Suc n) x h nt g =
     (case permutation E g x of (xp, g') \<Rightarrow>
        (case calc_q_statistic E xp h nt of
           Inl e \<Rightarrow> Inl e
         | Inr q \<Rightarrow>
             (case calc_q_h0 E n x h nt g' of
                Inl e \<Rightarrow> Inl e
              | Inr (qs, g'') \<Rightarrow> Inr (q # qs, g''))))"

text \<open>\<^verbatim>\<open>q[2, -1]\<close>: the Li-McLeod statistic at the last lag.\<close>

definition li_mcleod_last :: "mat \<Rightarrow> error + real" where
  "li_mcleod_last q =
     (if nrows q \<le> 2 \<or> ncols q = 0 then Inl IndexError else Inr (ent q 2 (ncols q - 1)))"

text \<open>\<^verbatim>\<open>data[:, :, p:]\<close>\<close>

definition drop_samples :: "tensor \<Rightarrow> nat \<Rightarrow> tensor" where
  "drop_samples x p =
     Ten (dim0 x) (dim1 x) (dim2 x - min p (dim2 x)) (\<lambda>s i n. tent x s i (min p (dim2 x) + n))"

text \<open>What \<^verbatim>\<open>test_whiteness\<close> returns: \<^verbatim>\<open>pr\<close>, or \<^verbatim>\<open>(pr, q0, q)\<close> with \<^verbatim>\<open>get_q\<close>.\<close>

datatype whiteness = Pr real | PrQ real "real list" real

definition p_value :: "whiteness \<Rightarrow> real" where
  "p_value w = (case w of Pr pr \<Rightarrow> pr | PrQ pr q0 q \<Rightarrow> pr)"

text \<open>
  The module's \<^verbatim>\<open>test_whiteness(data, h, p, repeats, get_q)\<close>.  \<^verbatim>\<open>np.array\<close> of the empty
  list of surrogate statistics has rank one, so the index \<^verbatim>\<open>[:, 2, -1]\<close> raises for
  \<open>repeats = 0\<close>; the surrogates are computed before the statistic of the data.
\<close>

definition test_whiteness ::
  "('f, 'g) white_env \<Rightarrow> tensor \<Rightarrow> int \<Rightarrow> nat \<Rightarrow> nat \<Rightarrow> bool \<Rightarrow> 'g \<Rightarrow> error + whiteness \<times> 'g" where
  "test_whiteness E data h p repeats get_q g =
     (let res = drop_samples data p;
          t = dim0 res; n = dim2 res;
          nt = (int n - int p) * int t
      in case calc_q_h0 E repeats res h nt g of
           Inl e \<Rightarrow> Inl e
         | Inr (qs, g') \<Rightarrow>
             if repeats = 0 then Inl IndexError
             else
               (case collect qs li_mcleod_last of
                  Inl e \<Rightarrow> Inl e
                | Inr q0 \<Rightarrow>
                    (case calc_q_statistic E res h nt of
                       Inl e \<Rightarrow> Inl e
                     | Inr qm \<Rightarrow>
                         (case li_mcleod_last qm of
                            Inl e \<Rightarrow> Inl e
                          | Inr q \<Rightarrow>
                              let pr = real (length (filter (\<lambda>v. q \<le> v) q0)) / real repeats in
                              Inr (if get_q then PrQ pr q0 q else Pr pr, g')))))"

text \<open>The method \<^verbatim>\<open>VARBase.test_whiteness\<close>: residuals that are \<^verbatim>\<open>None\<close> cannot be
  sliced.\<close>

definition var_test_whiteness ::
  "('f, 'g) white_env \<Rightarrow> heap \<Rightarrow> VARBase \<Rightarrow> int \<Rightarrow> nat \<Rightarrow> bool \<Rightarrow> 'g \<Rightarrow> error + whiteness \<times> 'g" where
  "var_test_whiteness E hp self h repeats get_q g =
     (case residuals self of
        None \<Rightarrow> Inl TypeError
      | Some r \<Rightarrow> test_whiteness E (tens hp r) h (var_p self) repeats get_q g)"

section \<open>Auxiliary definitions for the proofs\<close>

text \<open>The state of the statistics array after the first loop of \<^verbatim>\<open>_calc_q_statistic\<close>
  has run over the lags \<open>1..H\<close>, where \<open>tm l\<close> is the value \<^verbatim>\<open>tmp\<close> at lag \<open>l\<close>.\<close>

definition q_fill :: "(nat \<Rightarrow> real) \<Rightarrow> int \<Rightarrow> nat \<Rightarrow> mat \<Rightarrow> mat" where
  "q_fill tm nt H q =
     Mat (nrows q) (ncols q)
       (\<lambda>i j. if 1 \<le> j \<and> j \<le> H \<and> j < ncols q \<and> i < nrows q \<and> i < 3
               then (if i = 1 then tm j / real_of_int (nt - int j) else tm j)
               else ent q i j)"

text \<open>The state of the statistics array after the last loop has run over the lags
  \<open>1..H\<close>.\<close>

definition q_correct :: "nat \<Rightarrow> int \<Rightarrow> nat \<Rightarrow> mat \<Rightarrow> mat" where
  "q_correct m nt H q =
     Mat (nrows q) (ncols q)
       (\<lambda>i j. if i = 2 \<and> 1 \<le> j \<and> j \<le> H \<and> 2 < nrows q \<and> j < ncols q
               then ent q 0 j + real (m * m * j * (j + 1)) / real_of_int (2 * nt)
               else ent q i j)"

text \<open>The block of lag \<open>k\<close> (counted from one) of the solution \<open>c\<close> of the Yule-Walker
  system, \<^verbatim>\<open>c[(k - 1) * m : k * m, :]\<close>.\<close>

definition C_block :: "mat \<Rightarrow> nat \<Rightarrow> nat \<Rightarrow> mat" where
  "C_block c m k = rows_slice c ((k - 1) * m) (k * m)"

section \<open>Concrete inputs\<close>

text \<open>The empty store.\<close>

definition heap0 :: heap where
  "heap0 = \<lparr>mats = (\<lambda>a. zeros 0 0), mtop = 0, tens = (\<lambda>a. zeros3 0 0 0), ttop = 0\<rparr>"

text \<open>
  An environment for the whiteness test in which the autocorrelation matrix at every lag
  is the identity, so that solving against the lag-zero matrix changes nothing, and in
  which the permutation drawn is the identity.
\<close>

definition white_env0 :: "(mat, nat) white_env" where
  "white_env0 =
     \<lparr>acm = (\<lambda>x l. eye (dim1 x)), lu_factor = (\<lambda>A. A), lu_solve = (\<lambda>f B. B),
      permutation = (\<lambda>g x. (x, Suc g))\<rparr>"

text \<open>One trial of one channel and five samples.\<close>

definition x0 :: tensor where
  "x0 = ten_of_rows [[[1, 2, 3, 4, 5]]]"

text \<open>A solver for systems whose matrix is diagonal.\<close>

definition solve_diag :: "mat \<Rightarrow> mat \<Rightarrow> error + mat" where
  "solve_diag A b =
     (if nrows A \<noteq> ncols A \<or> nrows b \<noteq> nrows A then Inl ValueError
      else if list_ex (\<lambda>i. ent A i i = 0) [0..<nrows A] then Inl LinAlgError
      else Inr (Mat (nrows b) (ncols b) (\<lambda>i j. ent b i j / ent A i i)))"

text \<open>Autocorrelation matrices at the lags 0 and 1 of two independent channels, the
  store holding them at the addresses 0 and 1, the solution of their Yule-Walker system,
  and a model of order one.\<close>

definition acm0_yw :: mat where
  "acm0_yw = mat_of_rows [[2, 0], [0, 4]]"

definition acm1_yw :: mat where
  "acm1_yw = mat_of_rows [[1, 0], [0, 1]]"

definition heap_yw :: heap where
  "heap_yw = snd (alloc_mat (snd (alloc_mat heap0 acm0_yw)) acm1_yw)"

definition c_yw :: mat where
  "c_yw = Mat 2 2 (\<lambda>i j. ent acm1_yw i j / ent acm0_yw i i)"

definition var_yw :: VARBase where
  "var_yw = init False 1 (Some 1) None"

text \<open>A fitted model with its residuals, for \<^verbatim>\<open>copy\<close>: the store holds two arrays
  of rank 2 and the residuals.\<close>

definition res_cp :: tensor where
  "res_cp = ten_of_rows [[[1, 2], [3, 4]]]"

definition heap_cp :: heap where
  "heap_cp = snd (alloc_ten heap_yw res_cp)"

definition var_cp :: VARBase where
  "var_cp = (init True 1 (Some 4) (Some True))\<lparr>coef := Some 1, residuals := Some 0, rescov := Some 0\<rparr>"

text \<open>A model of two channels and order one, and data of shape (2, 3), for
  \<^verbatim>\<open>predict\<close>.\<close>

definition heap_pr :: heap where
  "heap_pr = snd (alloc_mat heap0 (mat_of_rows [[1/2, 0], [0, 1/2]]))"

definition var_pr :: VARBase where
  "var_pr = (init False 1 (Some 1) None)\<lparr>coef := Some 0\<rparr>"

definition data_pr :: ndarray where
  "data_pr = Rank2 (mat_of_rows [[1, 2, 3], [4, 5, 6]])"

text \<open>
  The term that one lag \<open>k\<close> contributes to the prediction of channel \<open>i\<close> of trial \<open>s\<close> at
  sample \<open>n\<close>: row \<open>i\<close> of the coefficient block \<open>bp\<close> (its only row, when it has one)
  times the data at sample \<open>n - k\<close>.  \<open>lag_update\<close> adds it for the trials below \<open>qs\<close>
  and the samples from \<open>p\<close> up to \<open>qn\<close>.
\<close>

definition lag_term :: "tensor \<Rightarrow> mat \<Rightarrow> nat \<Rightarrow> nat \<Rightarrow> nat \<Rightarrow> nat \<Rightarrow> real" where
  "lag_term x bp k s i n =
     sum_list (map (\<lambda>j. ent bp (bidx (nrows bp) i) j * tent x s j (n - k)) [0..<dim1 x])"

definition lag_update :: "tensor \<Rightarrow> mat \<Rightarrow> nat \<Rightarrow> nat \<Rightarrow> nat \<Rightarrow> nat \<Rightarrow> tensor \<Rightarrow> tensor" where
  "lag_update x bp k p qs qn y =
     Ten (dim0 y) (dim1 y) (dim2 y)
       (\<lambda>s i n. if s < qs \<and> i < dim1 y \<and> p \<le> n \<and> n < qn
                  then tent y s i n + lag_term x bp k s i n else tent y s i n)"

text \<open>Two arrays of rank 3 of the same shape.\<close>

definition same_dims :: "tensor \<Rightarrow> tensor \<Rightarrow> bool" where
  "same_dims y x \<longleftrightarrow> dim0 y = dim0 x \<and> dim1 y = dim1 x \<and> dim2 y = dim2 x"

text \<open>
  Inputs for the two loop strategies of \<^verbatim>\<open>predict\<close>: one trial of one channel and three
  samples; coefficients of order four, more than there are samples; coefficients of order
  two.
\<close>

definition x_ce :: tensor where
  "x_ce = ten_of_rows [[[1, 2, 3]]]"

definition cf_ce :: mat where
  "cf_ce = mat_of_rows [[1, 1, 1, 1]]"

definition cf_ok :: mat where
  "cf_ok = mat_of_rows [[1/2, 1/4]]"

text \<open>
  For \<^verbatim>\<open>simulate\<close>: the draw number \<open>i\<close> of a noise function started in the state \<open>g0\<close>;
  the sum over the lags \<open>1..q\<close> of the lag's coefficient block, row \<open>c\<close>, applied to the
  sample \<open>k\<close> places before sample \<open>i\<close> of trial \<open>s\<close>; and the equation of the process at
  sample \<open>i\<close> of trial \<open>s\<close>, where \<open>n\<close> is the number of samples generated per trial: the
  first \<open>p\<close> samples are the draws, every later one is its draw plus the sum over the \<open>p\<close>
  lags.
\<close>

definition nth_draw :: "('g \<Rightarrow> vec \<times> 'g) \<Rightarrow> 'g \<Rightarrow> nat \<Rightarrow> vec" where
  "nth_draw noisefunc g0 i = fst (noisefunc (((\<lambda>g. snd (noisefunc g)) ^^ i) g0))"

definition lag_sum :: "mat \<Rightarrow> nat \<Rightarrow> tensor \<Rightarrow> nat \<Rightarrow> nat \<Rightarrow> nat \<Rightarrow> nat \<Rightarrow> real" where
  "lag_sum cf p y i s c q =
     (\<Sum>k = 1..q. \<Sum>j<dim1 y. ent cf c (j * p + (k - 1)) * tent y (i - k) j s)"

definition sim_eqn ::
  "mat \<Rightarrow> nat \<Rightarrow> ('g \<Rightarrow> vec \<times> 'g) \<Rightarrow> 'g \<Rightarrow> nat \<Rightarrow> tensor \<Rightarrow> nat \<Rightarrow> nat \<Rightarrow> bool" where
  "sim_eqn cf p noisefunc g0 n y s i \<longleftrightarrow>
     (\<forall>c<dim1 y.
        tent y i c s =
          vent (nth_draw noisefunc g0 (s * n + i)) c
            + (if i < p then 0 else lag_sum cf p y i s c p))"

text \<open>The invariant of the loops of \<^verbatim>\<open>simulate\<close> before sample \<open>i\<close> of trial \<open>s\<close>: the
  arrays have their shape, \<open>s * n + i\<close> draws have been made, and the equation holds at
  every sample generated so far.\<close>

definition sim_inv ::
  "mat \<Rightarrow> nat \<Rightarrow> ('g \<Rightarrow> vec \<times> 'g) \<Rightarrow> 'g \<Rightarrow> nat \<Rightarrow> nat \<Rightarrow> nat \<Rightarrow> nat \<Rightarrow> nat
     \<Rightarrow> tensor \<times> tensor \<times> 'g \<Rightarrow> bool" where
  "sim_inv cf p noisefunc g0 n m t s i st \<longleftrightarrow>
     (case st of (y, res, g) \<Rightarrow>
        dim0 y = n \<and> dim1 y = m \<and> dim2 y = t \<and>
        dim0 res = n \<and> dim1 res = m \<and> dim2 res = t \<and>
        g = ((\<lambda>g. snd (noisefunc g)) ^^ (s * n + i)) g0 \<and>
        (\<forall>s' i'. i' < n \<and> (s' < s \<or> (s' = s \<and> i' < i))
                   \<longrightarrow> sim_eqn cf p noisefunc g0 n y s' i'))"

text \<open>
  Inputs for \<^verbatim>\<open>simulate\<close>: a generator whose state counts the draws and whose draw
  number \<open>i\<close> has the value \<open>i\<close> in every channel, a concatenation of the trials along the
  samples, a covariance routine that is not evaluated further; a store with the
  coefficient array [[0.5]], and a model of one channel and order one that refers to it.
\<close>

definition sim_env0 :: "nat sim_env" where
  "sim_env0 =
     \<lparr>normal = (\<lambda>g m. (Vec m (\<lambda>c. real g), Suc g)),
      cat_trials = (\<lambda>x. Mat (dim1 x) (dim0 x * dim2 x) (\<lambda>c q. tent x (q div dim2 x) c (q mod dim2 x))),
      np_cov = (\<lambda>X. zeros (ncols X) (ncols X))\<rparr>"

definition heap_sim :: heap where
  "heap_sim = snd (alloc_mat heap0 (mat_of_rows [[1/2]]))"

definition var_sim :: VARBase where
  "var_sim = (init False 1 (Some 1) None)\<lparr>coef := Some 0\<rparr>"

section \<open>Loops and sums\<close>

lemma for_each_append:
  "for_each (xs @ ys) body s =
     (case for_each xs body s of Inl e \<Rightarrow> Inl e | Inr s' \<Rightarrow> for_each ys body s')"
  by (induction xs arbitrary: s) (auto split: sum.splits)

lemma for_each_invariant:
  assumes "for_each xs body s = Inr s'" and "P s"
    and "\<And>i u u'. i \<in> set xs \<Longrightarrow> P u \<Longrightarrow> body i u = Inr u' \<Longrightarrow> P u'"
  shows "P s'"
  using assms
proof (induction xs arbitrary: s)
  case Nil
  then show ?case by simp
next
  case (Cons i xs)
  from Cons.prems(1) obtain u where u: "body i s = Inr u" and r: "for_each xs body u = Inr s'"
    by (auto split: sum.splits)
  have "P u" using Cons.prems(2,3) u by auto
  then show ?case using Cons.IH[OF r] Cons.prems(3) by auto
qed

lemma for_each_cong:
  assumes "\<And>i. i \<in> set xs \<Longrightarrow> f i = g i"
  shows "for_each xs f s = for_each xs g s"
  using assms by (induction xs arbitrary: s) (auto split: sum.splits)

lemma collect_Inr:
  assumes "\<And>i. i \<in> set xs \<Longrightarrow> f i = Inr (g i)"
  shows "collect xs f = Inr (map g xs)"
  using assms by (induction xs) simp_all

lemma sum_list_upt_shift:
  "sum_list (map (\<lambda>k. if 1 \<le> k \<and> k \<le> H then f k else 0) [0..<Suc l]) = (\<Sum>k = 1..min l H. f k)"
proof -
  have "sum_list (map (\<lambda>k. if 1 \<le> k \<and> k \<le> H then f k else 0) [0..<Suc l])
        = (\<Sum>k\<in>{0..<Suc l}. if 1 \<le> k \<and> k \<le> H then f k else 0)"
    by (simp add: interv_sum_list_conv_sum_set_nat)
  also have "\<dots> = (\<Sum>k\<in>{0..<Suc l} \<inter> {k. 1 \<le> k \<and> k \<le> H}. f k)"
    by (simp add: sum.inter_restrict)
  also have "{0..<Suc l} \<inter> {k. 1 \<le> k \<and> k \<le> H} = {1..min l H}" by auto
  finally show ?thesis .
qed

lemma sum_list_upt_sum: "sum_list (map f [0..<n]) = (\<Sum>a<n. f a)"
  by (simp add: interv_sum_list_conv_sum_set_nat atLeast0LessThan)

lemma step_count_exact:
  assumes "i < s"
  shows "step_count (q * s) i s = q"
proof (cases q)
  case 0
  then show ?thesis using assms by (simp add: step_count_def)
next
  case (Suc q')
  have "i \<le> q * s" using assms Suc by (simp add: trans_le_add1 less_imp_le)
  then have e: "q * s - min i (q * s) + s - 1 = (s - 1 - i) + q * s"
    using assms by (simp add: min_absorb1)
  have small: "(s - 1 - i) < s" using assms by simp
  have "step_count (q * s) i s = ((s - 1 - i) + q * s) div s"
    by (simp only: step_count_def e)
  also have "\<dots> = q" using small by simp
  finally show ?thesis .
qed

lemma vstack_uniform:
  assumes "Bs \<noteq> []" and "\<forall>B\<in>set Bs. nrows B = p \<and> ncols B = C"
  shows "\<exists>R. vstack Bs = Inr R \<and> nrows R = length Bs * p \<and> ncols R = C \<and>
           (\<forall>i<length Bs. \<forall>a<p. \<forall>j. ent R (i * p + a) j = ent (Bs ! i) a j)"
  using assms
proof (induction Bs rule: vstack.induct)
  case 1
  then show ?case by simp
next
  case (2 A)
  then show ?case by simp
next
  case (3 A B Bs)
  then obtain R where R: "vstack (B # Bs) = Inr R" "nrows R = length (B # Bs) * p" "ncols R = C"
    and Rent: "\<forall>i<length (B # Bs). \<forall>a<p. \<forall>j. ent R (i * p + a) j = ent ((B # Bs) ! i) a j"
    by auto
  have A: "nrows A = p" "ncols A = C" using "3.prems" by simp_all
  have run: "vstack (A # B # Bs) = Inr (vstack2 A R)" using R A by simp
  have ent: "ent (vstack2 A R) (i * p + a) j = ent ((A # B # Bs) ! i) a j"
    if "i < length (A # B # Bs)" "a < p" for i a j
  proof (cases i)
    case 0
    then show ?thesis using that A by (simp add: vstack2_def)
  next
    case (Suc i')
    then have "i' < length (B # Bs)" using that by simp
    then have "ent R (i' * p + a) j = ent ((B # Bs) ! i') a j" using Rent that by blast
    then show ?thesis using Suc A by (simp add: vstack2_def)
  qed
  have "nrows (vstack2 A R) = length (A # B # Bs) * p" "ncols (vstack2 A R) = C"
    using A R by (simp_all add: vstack2_def)
  with run ent show ?case by blast
qed

lemma hstack_uniform:
  assumes "Bs \<noteq> []" and "\<forall>B\<in>set Bs. nrows B = r"
  shows "\<exists>R. hstack Bs = Inr R \<and> nrows R = r \<and> ncols R = sum_list (map ncols Bs)"
  using assms
proof (induction Bs rule: hstack.induct)
  case 1
  then show ?case by simp
next
  case (2 A)
  then show ?case by simp
next
  case (3 A B Bs)
  then obtain R where R: "hstack (B # Bs) = Inr R" "nrows R = r" "ncols R = sum_list (map ncols (B # Bs))"
    by auto
  then show ?case using "3.prems" by (simp add: hstack2_def)
qed

lemma for_each_cong_inv:
  assumes "P s"
    and "\<And>i u. i \<in> set xs \<Longrightarrow> P u \<Longrightarrow> f i u = g i u"
    and "\<And>i u u'. i \<in> set xs \<Longrightarrow> P u \<Longrightarrow> f i u = Inr u' \<Longrightarrow> P u'"
  shows "for_each xs f s = for_each xs g s"
  using assms
proof (induction xs arbitrary: s)
  case Nil
  show ?case by simp
next
  case (Cons i xs)
  have eq: "f i s = g i s" using Cons.prems by simp
  show ?case
  proof (cases "f i s")
    case (Inl e)
    then show ?thesis using eq by simp
  next
    case (Inr u)
    then have "P u" using Cons.prems(1) Cons.prems(3)[of i s u] by simp
    then have "for_each xs f u = for_each xs g u"
    proof (rule Cons.IH)
      show "f j v = g j v" if "j \<in> set xs" "P v" for j v
        using Cons.prems(2)[of j v] that by simp
      show "P v'" if "j \<in> set xs" "P v" "f j v = Inr v'" for j v v'
        using Cons.prems(3)[of j v v'] that by simp
    qed
    then show ?thesis using Inr eq by simp
  qed
qed

lemma for_each_steps:
  assumes step: "\<And>i st. a \<le> i \<Longrightarrow> i < b \<Longrightarrow> I i st \<Longrightarrow> \<exists>st'. body i st = Inr st' \<and> I (Suc i) st'"
    and start: "I a st" and le: "a \<le> b"
  shows "\<exists>st'. for_each [a..<b] body st = Inr st' \<and> I b st'"
proof -
  have "\<exists>st'. for_each [a..<a + d] body st = Inr st' \<and> I (a + d) st'" if "a + d \<le> b" for d
    using that
  proof (induction d)
    case 0
    then show ?case using start by simp
  next
    case (Suc d)
    then obtain u where u: "for_each [a..<a + d] body st = Inr u" "I (a + d) u" by auto
    have "\<exists>st'. body (a + d) u = Inr st' \<and> I (Suc (a + d)) st'"
      using Suc.prems u(2) by (intro step) simp_all
    then obtain u' where u': "body (a + d) u = Inr u'" "I (Suc (a + d)) u'" by blast
    have split: "[a..<a + Suc d] = [a..<a + d] @ [a + d]" by simp
    show ?case unfolding split for_each_append u(1) using u' by simp
  qed
  from this[of "b - a"] le show ?thesis by simp
qed

section \<open>Stability of a model of order one\<close>

text \<open>
  C1.  The model with two channels, order one and coefficients [[0.5, 0], [0, 0.5]]:
  \<^verbatim>\<open>is_stable\<close> does not return.  For \<open>p = 1\<close> the identity block is still built, as the
  2 by 2 identity, and \<^verbatim>\<open>np.hstack\<close> of it with the array of shape (0, 2) raises
  \<^verbatim>\<open>ValueError\<close>, whatever the eigenvalue routine would answer.
\<close>

theorem is_stable_order_one_raises:
  "is_stable eig (h\<lparr>mats := (mats h)(a := mat_of_rows [[1/2, 0], [0, 1/2]])\<rparr>)
     (self\<lparr>coef := Some a\<rparr>) = Inl ValueError"
  by (simp add: is_stable_def mat_of_rows_def cols_step_def step_count_def eye_def zeros_def
      Let_def)

section \<open>Copying a model\<close>

text \<open>
  The claim C7 as it was stated has \<^verbatim>\<open>copy\<close> of a model that was never fitted fail with
  a dedicated invalid-state error and not with an attribute error.  The source has no such
  check: \<^verbatim>\<open>self.coef.copy()\<close> on \<^verbatim>\<open>None\<close> raises \<^verbatim>\<open>AttributeError\<close>.
\<close>

theorem copy_unfit_attribute_error:
  "fst (copy False heap0 (init False 2 (Some 1) None)) = Inl AttributeError"
  by (simp add: copy_def init_def)

text \<open>
  C7 (as amended).  When \<^verbatim>\<open>coef\<close>, \<^verbatim>\<open>residuals\<close> or \<^verbatim>\<open>rescov\<close> is \<^verbatim>\<open>None\<close>, \<^verbatim>\<open>copy\<close>
  raises \<^verbatim>\<open>AttributeError\<close>.  When all three are set, the copy has the same \<open>p\<close>, and its
  three arrays are new: their addresses were not in use before the call, the two rank-2
  ones differ, they hold what the arrays of the original hold, and every array that
  existed before the call is unchanged.
\<close>

theorem copy_result:
  "((coef self = None \<or> residuals self = None \<or> rescov self = None)
      \<longrightarrow> fst (copy cfg h self) = Inl AttributeError) \<and>
   (\<forall>a r c. coef self = Some a \<and> residuals self = Some r \<and> rescov self = Some c \<longrightarrow>
      (\<exists>other h' a' r' c'.
         copy cfg h self = (Inr other, h') \<and> var_p other = var_p self \<and>
         coef other = Some a' \<and> residuals other = Some r' \<and> rescov other = Some c' \<and>
         mtop h \<le> a' \<and> mtop h \<le> c' \<and> a' \<noteq> c' \<and> ttop h \<le> r' \<and>
         (a < mtop h \<longrightarrow> mats h' a' = mats h a) \<and>
         (r < ttop h \<longrightarrow> tens h' r' = tens h r) \<and>
         (c < mtop h \<longrightarrow> mats h' c' = mats h c) \<and>
         (\<forall>x<mtop h. mats h' x = mats h x) \<and> (\<forall>x<ttop h. tens h' x = tens h x)))"
proof (intro conjI impI allI)
  assume "coef self = None \<or> residuals self = None \<or> rescov self = None"
  then show "fst (copy cfg h self) = Inl AttributeError"
    by (auto simp: copy_def Let_def alloc_mat_def alloc_ten_def split: option.splits)
next
  fix a r c
  assume set: "coef self = Some a \<and> residuals self = Some r \<and> rescov self = Some c"
  let ?h1 = "h\<lparr>mats := (mats h)(mtop h := mats h a), mtop := Suc (mtop h)\<rparr>"
  let ?h2 = "?h1\<lparr>tens := (tens ?h1)(ttop ?h1 := tens ?h1 r), ttop := Suc (ttop ?h1)\<rparr>"
  let ?h3 = "?h2\<lparr>mats := (mats ?h2)(mtop ?h2 := mats ?h2 c), mtop := Suc (mtop ?h2)\<rparr>"
  let ?other = "(init cfg (var_p self) (Some 1) None)
                  \<lparr>coef := Some (mtop h), residuals := Some (ttop h), rescov := Some (Suc (mtop h))\<rparr>"
  have run: "copy cfg h self = (Inr ?other, ?h3)"
    using set by (simp add: copy_def Let_def alloc_mat_def alloc_ten_def)
  show "\<exists>other h' a' r' c'.
         copy cfg h self = (Inr other, h') \<and> var_p other = var_p self \<and>
         coef other = Some a' \<and> residuals other = Some r' \<and> rescov other = Some c' \<and>
         mtop h \<le> a' \<and> mtop h \<le> c' \<and> a' \<noteq> c' \<and> ttop h \<le> r' \<and>
         (a < mtop h \<longrightarrow> mats h' a' = mats h a) \<and>
         (r < ttop h \<longrightarrow> tens h' r' = tens h r) \<and>
         (c < mtop h \<longrightarrow> mats h' c' = mats h c) \<and>
         (\<forall>x<mtop h. mats h' x = mats h x) \<and> (\<forall>x<ttop h. tens h' x = tens h x)"
    by (rule exI[of _ ?other], rule exI[of _ ?h3], rule exI[of _ "mtop h"],
        rule exI[of _ "ttop h"], rule exI[of _ "Suc (mtop h)"])
       (simp add: run init_def)
qed

theorem copy_result_witness:
  "fst (copy False heap0 (init False 2 (Some 1) None)) = Inl AttributeError \<and>
   (\<exists>other h'. copy False heap_cp var_cp = (Inr other, h') \<and> var_p other = 1 \<and>
      coef other = Some 2 \<and> residuals other = Some 1 \<and> rescov other = Some 3 \<and>
      mats h' 2 = acm1_yw \<and> mats h' 3 = acm0_yw \<and> tens h' 1 = res_cp \<and>
      mats h' 0 = acm0_yw \<and> mats h' 1 = acm1_yw)"
proof -
  have unfit: "coef (init False 2 (Some 1) None) = None" by (simp add: init_def)
  have a: "fst (copy False heap0 (init False 2 (Some 1) None)) = Inl AttributeError"
    using copy_result[of "init False 2 (Some 1) None" False heap0] unfit by blast
  have fields: "coef var_cp = Some 1 \<and> residuals var_cp = Some 0 \<and> rescov var_cp = Some 0"
    by (simp add: var_cp_def)
  have hp: "mtop heap_cp = 2" "ttop heap_cp = 1" "mats heap_cp 0 = acm0_yw"
    "mats heap_cp (Suc 0) = acm1_yw" "tens heap_cp 0 = res_cp"
    by (simp_all add: heap_cp_def heap_yw_def heap0_def alloc_mat_def alloc_ten_def)
  have "\<exists>other h' a' r' c'.
         copy False heap_cp var_cp = (Inr other, h') \<and> var_p other = var_p var_cp \<and>
         coef other = Some a' \<and> residuals other = Some r' \<and> rescov other = Some c' \<and>
         mtop heap_cp \<le> a' \<and> mtop heap_cp \<le> c' \<and> a' \<noteq> c' \<and> ttop heap_cp \<le> r' \<and>
         (1 < mtop heap_cp \<longrightarrow> mats h' a' = mats heap_cp 1) \<and>
         (0 < ttop heap_cp \<longrightarrow> tens h' r' = tens heap_cp 0) \<and>
         (0 < mtop heap_cp \<longrightarrow> mats h' c' = mats heap_cp 0) \<and>
         (\<forall>x<mtop heap_cp. mats h' x = mats heap_cp x) \<and>
         (\<forall>x<ttop heap_cp. tens h' x = tens heap_cp x)"
    using copy_result[of var_cp False heap_cp, THEN conjunct2, rule_format, OF fields] .
  then obtain other h' a' r' c' where
    run: "copy False heap_cp var_cp = (Inr other, h')" "var_p other = var_p var_cp"
      "coef other = Some a'" "residuals other = Some r'" "rescov other = Some c'"
    and vals: "(1::nat) < mtop heap_cp \<longrightarrow> mats h' a' = mats heap_cp 1"
      "(0::nat) < ttop heap_cp \<longrightarrow> tens h' r' = tens heap_cp 0"
      "(0::nat) < mtop heap_cp \<longrightarrow> mats h' c' = mats heap_cp 0"
      "\<forall>x<mtop heap_cp. mats h' x = mats heap_cp x"
    by (elim exE conjE) (rule that)
  have ids: "a' = 2" "r' = 1" "c' = 3"
    using run(1,3,4,5)
    by (auto simp: copy_def var_cp_def init_def Let_def alloc_mat_def alloc_ten_def hp)
  have "var_p other = 1" using run(2) by (simp add: var_cp_def init_def)
  moreover have "mats h' 2 = acm1_yw" "mats h' 3 = acm0_yw" "tens h' 1 = res_cp"
    using vals(1,2,3) by (simp_all add: ids hp)
  moreover have "mats h' 0 = acm0_yw" "mats h' 1 = acm1_yw"
    using vals(4) by (simp_all add: hp)
  ultimately show ?thesis using a run ids by auto
qed

section \<open>The shape of a prediction\<close>

text \<open>
  C3.  For data of rank 2, here of shape (2, 3), \<^verbatim>\<open>predict\<close> returns an array of rank 3,
  of shape (1, 2, 3): \<^verbatim>\<open>y = np.zeros(data.shape)\<close> takes the shape of the data after
  \<^verbatim>\<open>atleast_3d\<close>, and \<^verbatim>\<open>y\<close> is returned as it is.  The result does not have the shape
  of the input.
\<close>

theorem predict_rank2_shape:
  "map_sum id (\<lambda>y. shape (Rank3 y)) (predict heap_pr var_pr data_pr) = Inr [1, 2, 3] \<and>
   shape data_pr = [2, 3]"
  by code_simp

section \<open>The two loop strategies of \<^verbatim>\<open>predict\<close>\<close>

lemma lag_update_dims [simp]:
  "dim0 (lag_update x bp k p qs qn y) = dim0 y"
  "dim1 (lag_update x bp k p qs qn y) = dim1 y"
  "dim2 (lag_update x bp k p qs qn y) = dim2 y"
  by (simp_all add: lag_update_def)

lemma lag_update_empty: "lag_update x bp k p qs p y = y" "lag_update x bp k p 0 qn y = y"
proof -
  show "lag_update x bp k p qs p y = y"
    by (cases y) (auto simp: lag_update_def fun_eq_iff)
  show "lag_update x bp k p 0 qn y = y"
    by (cases y) (simp add: lag_update_def)
qed

lemma dot_slab_entry:
  assumes "ncols bp = dim1 x"
  shows "dot (sample_slab x n) (transpose_mat bp)
           = Inr (Mat (dim0 x) (nrows bp)
                   (\<lambda>s i. sum_list (map (\<lambda>j. ent bp i j * tent x s j n) [0..<dim1 x])))"
proof -
  have "(\<lambda>j. tent x s j n * ent bp i j) = (\<lambda>j. ent bp i j * tent x s j n)" for s i
    by (rule ext) (rule mult.commute)
  then show ?thesis
    using assms by (simp add: dot_def sample_slab_def transpose_mat_def)
qed

lemma sample_step:
  assumes dims: "same_dims y x" and cb: "ncols bp = dim1 x"
    and r: "nrows bp = dim1 x \<or> nrows bp = 1" and n: "p \<le> n" "n < dim2 x"
  shows "(case dot (sample_slab x (n - k)) (transpose_mat bp) of
            Inl e \<Rightarrow> Inl e
          | Inr X \<Rightarrow> iadd_slab (lag_update x bp k p (dim0 x) n y) n X)
         = Inr (lag_update x bp k p (dim0 x) (Suc n) y)"
proof -
  have d: "dim0 y = dim0 x" "dim1 y = dim1 x" "dim2 y = dim2 x"
    using dims by (simp_all add: same_dims_def)
  define X where "X = Mat (dim0 x) (nrows bp)
              (\<lambda>s i. sum_list (map (\<lambda>j. ent bp i j * tent x s j (n - k)) [0..<dim1 x]))"
  define u where "u = lag_update x bp k p (dim0 x) n y"
  have X: "nrows X = dim0 x" "ncols X = nrows bp" by (simp_all add: X_def)
  have ud: "dim0 u = dim0 x" "dim1 u = dim1 x" "dim2 u = dim2 x" by (simp_all add: u_def d)
  have ut: "tent u s i n' = (if s < dim0 x \<and> i < dim1 x \<and> p \<le> n' \<and> n' < n
                              then tent y s i n' + lag_term x bp k s i n' else tent y s i n')"
    for s i n'
    by (simp add: u_def lag_update_def d)
  have b: "bidx (dim0 x) s = s" if "s < dim0 x" for s using that by (auto simp: bidx_def)
  have ent: "ent X (bidx (dim0 x) s) (bidx (nrows bp) i) = lag_term x bp k s i n"
    if "s < dim0 x" for s i
    by (simp add: X_def b[OF that] lag_term_def)
  have dotX: "dot (sample_slab x (n - k)) (transpose_mat bp) = Inr X"
    unfolding X_def by (rule dot_slab_entry[OF cb])
  have ok: "(nrows X = dim0 u \<or> nrows X = 1) \<and> (ncols X = dim1 u \<or> ncols X = 1)"
    using r by (simp add: X ud)
  have fn: "(\<lambda>s i n'. if n' = n \<and> s < dim0 u \<and> i < dim1 u \<and> n < dim2 u
                      then tent u s i n' + ent X (bidx (nrows X) s) (bidx (ncols X) i)
                      else tent u s i n')
          = (\<lambda>s i n'. if s < dim0 x \<and> i < dim1 y \<and> p \<le> n' \<and> n' < Suc n
                  then tent y s i n' + lag_term x bp k s i n' else tent y s i n')"
  proof (intro ext)
    fix s i n'
    show "(if n' = n \<and> s < dim0 u \<and> i < dim1 u \<and> n < dim2 u
                      then tent u s i n' + ent X (bidx (nrows X) s) (bidx (ncols X) i)
                      else tent u s i n')
          = (if s < dim0 x \<and> i < dim1 y \<and> p \<le> n' \<and> n' < Suc n
                  then tent y s i n' + lag_term x bp k s i n' else tent y s i n')"
    proof (cases "n' = n \<and> s < dim0 x \<and> i < dim1 x")
      case True
      then have "tent u s i n' = tent y s i n'" by (simp add: ut)
      then show ?thesis
        using True n ent[of s i] by (simp add: ud X d)
    next
      case False
      then have "(if n' = n \<and> s < dim0 u \<and> i < dim1 u \<and> n < dim2 u
                      then tent u s i n' + ent X (bidx (nrows X) s) (bidx (ncols X) i)
                      else tent u s i n') = tent u s i n'"
        by (auto simp: ud)
      also have "\<dots> = (if s < dim0 x \<and> i < dim1 y \<and> p \<le> n' \<and> n' < Suc n
                  then tent y s i n' + lag_term x bp k s i n' else tent y s i n')"
        using False n by (auto simp: ut d less_Suc_eq)
      finally show ?thesis .
    qed
  qed
  have "iadd_slab u n X = Inr (lag_update x bp k p (dim0 x) (Suc n) y)"
    unfolding iadd_slab_def lag_update_def fn using ok by (simp add: ud d)
  then show ?thesis
    unfolding dotX u_def by simp
qed

lemma sample_loop:
  assumes dims: "same_dims y x" and cb: "ncols bp = dim1 x"
    and r: "nrows bp = dim1 x \<or> nrows bp = 1" and q: "p + d \<le> dim2 x"
  shows "for_each [p..<p + d]
           (\<lambda>n y. case dot (sample_slab x (n - k)) (transpose_mat bp) of
                     Inl e \<Rightarrow> Inl e
                   | Inr X \<Rightarrow> iadd_slab y n X)
           y = Inr (lag_update x bp k p (dim0 x) (p + d) y)"
  using q
proof (induction d)
  case 0
  show ?case by (simp add: lag_update_empty)
next
  case (Suc d)
  have split: "[p..<p + Suc d] = [p..<p + d] @ [p + d]" by simp
  have IH: "for_each [p..<p + d]
           (\<lambda>n y. case dot (sample_slab x (n - k)) (transpose_mat bp) of
                     Inl e \<Rightarrow> Inl e
                   | Inr X \<Rightarrow> iadd_slab y n X)
           y = Inr (lag_update x bp k p (dim0 x) (p + d) y)"
    using Suc by simp
  have step: "(case dot (sample_slab x (p + d - k)) (transpose_mat bp) of
            Inl e \<Rightarrow> Inl e
          | Inr X \<Rightarrow> iadd_slab (lag_update x bp k p (dim0 x) (p + d) y) (p + d) X)
         = Inr (lag_update x bp k p (dim0 x) (Suc (p + d)) y)"
    using Suc.prems by (intro sample_step[OF dims cb r]) simp_all
  show ?case unfolding split for_each_append IH using step by simp
qed

lemma window_entry:
  assumes k: "k \<le> p" and p: "p \<le> dim2 x"
  shows "trial_window x s (int p - int k) (int (dim2 x) - int k)
           = Mat (dim1 x) (dim2 x - p) (\<lambda>j n. tent x s j (p - k + n))"
proof -
  have lo: "slice_bound (dim2 x) (int p - int k) = p - k"
    using k p by (simp add: slice_bound_def nat_diff_distrib')
  have hi: "slice_bound (dim2 x) (int (dim2 x) - int k) = dim2 x - k"
    using k p by (simp add: slice_bound_def nat_diff_distrib')
  have "dim2 x - k - (p - k) = dim2 x - p" using k p by simp
  then show ?thesis by (simp add: trial_window_def lo hi Let_def)
qed

lemma trial_step:
  assumes dims: "same_dims y x" and cb: "ncols bp = dim1 x"
    and r: "nrows bp = dim1 x \<or> nrows bp = 1" and k: "k \<le> p" and p: "p \<le> dim2 x"
    and s: "s < dim0 x"
  shows "(case dot bp (trial_window x s (int p - int k) (int (dim2 x) - int k)) of
            Inl e \<Rightarrow> Inl e
          | Inr X \<Rightarrow> iadd_trial (lag_update x bp k p s (dim2 x) y) s p X)
         = Inr (lag_update x bp k p (Suc s) (dim2 x) y)"
proof -
  have d: "dim0 y = dim0 x" "dim1 y = dim1 x" "dim2 y = dim2 x"
    using dims by (simp_all add: same_dims_def)
  define X where "X = Mat (nrows bp) (dim2 x - p)
              (\<lambda>i n. sum_list (map (\<lambda>j. ent bp i j * tent x s j (p - k + n)) [0..<dim1 x]))"
  define u where "u = lag_update x bp k p s (dim2 x) y"
  have X: "nrows X = nrows bp" "ncols X = dim2 x - p" by (simp_all add: X_def)
  have ud: "dim0 u = dim0 x" "dim1 u = dim1 x" "dim2 u = dim2 x" by (simp_all add: u_def d)
  have ut: "tent u s' i n = (if s' < s \<and> i < dim1 x \<and> p \<le> n \<and> n < dim2 x
                              then tent y s' i n + lag_term x bp k s' i n else tent y s' i n)"
    for s' i n
    by (simp add: u_def lag_update_def d)
  have b: "bidx (dim2 x - p) (n - p) = n - p" if "p \<le> n" "n < dim2 x" for n
    using that by (auto simp: bidx_def)
  have ent: "ent X (bidx (nrows bp) i) (bidx (dim2 x - p) (n - p)) = lag_term x bp k s i n"
    if "p \<le> n" "n < dim2 x" for i n
  proof -
    have "p - k + (n - p) = n - k" using that k by simp
    then show ?thesis by (simp add: X_def b[OF that] lag_term_def)
  qed
  have dotX: "dot bp (trial_window x s (int p - int k) (int (dim2 x) - int k)) = Inr X"
    unfolding window_entry[OF k p] X_def using cb by (simp add: dot_def)
  have w: "dim2 u - min p (dim2 u) = dim2 x - p" using p by (simp add: ud)
  have ok: "(nrows X = dim1 u \<or> nrows X = 1) \<and>
            (ncols X = dim2 u - min p (dim2 u) \<or> ncols X = 1)"
    using r p by (simp add: X ud min_absorb1)
  have fn: "(\<lambda>s' i n. if s' = s \<and> s < dim0 u \<and> i < dim1 u \<and> p \<le> n \<and> n < dim2 u
                      then tent u s' i n + ent X (bidx (nrows X) i) (bidx (ncols X) (n - p))
                      else tent u s' i n)
          = (\<lambda>s' i n. if s' < Suc s \<and> i < dim1 y \<and> p \<le> n \<and> n < dim2 x
                  then tent y s' i n + lag_term x bp k s' i n else tent y s' i n)"
  proof (intro ext)
    fix s' i n
    show "(if s' = s \<and> s < dim0 u \<and> i < dim1 u \<and> p \<le> n \<and> n < dim2 u
                      then tent u s' i n + ent X (bidx (nrows X) i) (bidx (ncols X) (n - p))
                      else tent u s' i n)
          = (if s' < Suc s \<and> i < dim1 y \<and> p \<le> n \<and> n < dim2 x
                  then tent y s' i n + lag_term x bp k s' i n else tent y s' i n)"
    proof (cases "s' = s \<and> i < dim1 x \<and> p \<le> n \<and> n < dim2 x")
      case True
      then have "tent u s' i n = tent y s' i n" by (simp add: ut)
      then show ?thesis
        using True s ent[of n i] by (simp add: ud X d)
    next
      case False
      then have "(if s' = s \<and> s < dim0 u \<and> i < dim1 u \<and> p \<le> n \<and> n < dim2 u
                      then tent u s' i n + ent X (bidx (nrows X) i) (bidx (ncols X) (n - p))
                      else tent u s' i n) = tent u s' i n"
        by (auto simp: ud)
      also have "\<dots> = (if s' < Suc s \<and> i < dim1 y \<and> p \<le> n \<and> n < dim2 x
                  then tent y s' i n + lag_term x bp k s' i n else tent y s' i n)"
        using False by (auto simp: ut d less_Suc_eq)
      finally show ?thesis .
    qed
  qed
  have "iadd_trial u s p X = Inr (lag_update x bp k p (Suc s) (dim2 x) y)"
    unfolding iadd_trial_def lag_update_def Let_def fn using ok by (simp add: ud d)
  then show ?thesis
    unfolding dotX u_def by simp
qed

lemma trial_loop:
  assumes dims: "same_dims y x" and cb: "ncols bp = dim1 x"
    and r: "nrows bp = dim1 x \<or> nrows bp = 1" and k: "k \<le> p" and p: "p \<le> dim2 x"
    and q: "q \<le> dim0 x"
  shows "for_each [0..<q]
           (\<lambda>s y. case dot bp (trial_window x s (int p - int k) (int (dim2 x) - int k)) of
                     Inl e \<Rightarrow> Inl e
                   | Inr X \<Rightarrow> iadd_trial y s p X)
           y = Inr (lag_update x bp k p q (dim2 x) y)"
  using q
proof (induction q)
  case 0
  show ?case by (simp add: lag_update_empty)
next
  case (Suc q)
  have split: "[0..<Suc q] = [0..<q] @ [q]" by simp
  have IH: "for_each [0..<q]
           (\<lambda>s y. case dot bp (trial_window x s (int p - int k) (int (dim2 x) - int k)) of
                     Inl e \<Rightarrow> Inl e
                   | Inr X \<Rightarrow> iadd_trial y s p X)
           y = Inr (lag_update x bp k p q (dim2 x) y)"
    using Suc by simp
  have step: "(case dot bp (trial_window x q (int p - int k) (int (dim2 x) - int k)) of
            Inl e \<Rightarrow> Inl e
          | Inr X \<Rightarrow> iadd_trial (lag_update x bp k p q (dim2 x) y) q p X)
         = Inr (lag_update x bp k p (Suc q) (dim2 x) y)"
    using Suc.prems by (intro trial_step[OF dims cb r k p]) simp
  show ?case unfolding split for_each_append IH using step by simp
qed

lemma sample_first_raises:
  assumes dims: "same_dims y x" and bad: "\<not> (ncols bp = dim1 x \<and> (nrows bp = dim1 x \<or> nrows bp = 1))"
    and ne: "p < dim2 x"
  shows "for_each [p..<dim2 x]
           (\<lambda>n y. case dot (sample_slab x (n - k)) (transpose_mat bp) of
                     Inl e \<Rightarrow> Inl e
                   | Inr X \<Rightarrow> iadd_slab y n X)
           y = Inl ValueError"
proof -
  have d: "dim0 y = dim0 x" "dim1 y = dim1 x" "dim2 y = dim2 x"
    using dims by (simp_all add: same_dims_def)
  have split: "[p..<dim2 x] = p # [Suc p..<dim2 x]" using ne by (simp add: upt_conv_Cons)
  have "(case dot (sample_slab x (p - k)) (transpose_mat bp) of
                     Inl e \<Rightarrow> Inl e
                   | Inr X \<Rightarrow> iadd_slab y p X) = Inl ValueError"
    using bad by (auto simp: dot_def sample_slab_def transpose_mat_def iadd_slab_def d)
  then show ?thesis unfolding split by simp
qed

lemma trial_first_raises:
  assumes dims: "same_dims y x" and bad: "\<not> (ncols bp = dim1 x \<and> (nrows bp = dim1 x \<or> nrows bp = 1))"
    and ne: "0 < dim0 x"
  shows "for_each [0..<dim0 x]
           (\<lambda>s y. case dot bp (trial_window x s a b) of
                     Inl e \<Rightarrow> Inl e
                   | Inr X \<Rightarrow> iadd_trial y s p X)
           y = Inl ValueError"
proof -
  have d: "dim0 y = dim0 x" "dim1 y = dim1 x" "dim2 y = dim2 x"
    using dims by (simp_all add: same_dims_def)
  have split: "[0..<dim0 x] = 0 # [Suc 0..<dim0 x]" using ne by (simp add: upt_conv_Cons)
  have "(case dot bp (trial_window x 0 a b) of
                     Inl e \<Rightarrow> Inl e
                   | Inr X \<Rightarrow> iadd_trial y 0 p X) = Inl ValueError"
    using bad by (auto simp: dot_def trial_window_def iadd_trial_def d Let_def)
  then show ?thesis unfolding split by simp
qed

lemma lag_loops_agree:
  assumes dims: "same_dims y x" and k: "k \<le> p" and p: "p \<le> dim2 x"
    and shape: "(p < dim2 x \<and> 0 < dim0 x) \<or>
                (ncols bp = dim1 x \<and> (nrows bp = dim1 x \<or> nrows bp = 1))"
  shows "for_each [p..<dim2 x]
           (\<lambda>n y. case dot (sample_slab x (n - k)) (transpose_mat bp) of
                     Inl e \<Rightarrow> Inl e
                   | Inr X \<Rightarrow> iadd_slab y n X)
           y
         = for_each [0..<dim0 x]
           (\<lambda>s y. case dot bp (trial_window x s (int p - int k) (int (dim2 x) - int k)) of
                     Inl e \<Rightarrow> Inl e
                   | Inr X \<Rightarrow> iadd_trial y s p X)
           y"
proof (cases "ncols bp = dim1 x \<and> (nrows bp = dim1 x \<or> nrows bp = 1)")
  case True
  obtain d where d: "dim2 x = p + d" using p by (auto simp: le_iff_add)
  have one: "for_each [p..<dim2 x]
           (\<lambda>n y. case dot (sample_slab x (n - k)) (transpose_mat bp) of
                     Inl e \<Rightarrow> Inl e
                   | Inr X \<Rightarrow> iadd_slab y n X)
           y = Inr (lag_update x bp k p (dim0 x) (dim2 x) y)"
    using sample_loop[OF dims, of bp p d k] True d by simp
  have two: "for_each [0..<dim0 x]
           (\<lambda>s y. case dot bp (trial_window x s (int p - int k) (int (dim2 x) - int k)) of
                     Inl e \<Rightarrow> Inl e
                   | Inr X \<Rightarrow> iadd_trial y s p X)
           y = Inr (lag_update x bp k p (dim0 x) (dim2 x) y)"
    using trial_loop[OF dims, of bp k p "dim0 x"] True k p by simp
  show ?thesis unfolding one two ..
next
  case False
  then have ne: "p < dim2 x" "0 < dim0 x" using shape by auto
  show ?thesis
    unfolding sample_first_raises[OF dims False ne(1)] trial_first_raises[OF dims False ne(2)] ..
qed

lemma iadd_slab_dims:
  assumes "iadd_slab y n X = Inr y'"
  shows "same_dims y' y"
  using assms by (auto simp: iadd_slab_def same_dims_def split: if_splits)

lemma sample_loop_dims:
  assumes "for_each ns
           (\<lambda>n y. case dot (sample_slab x (n - k)) (transpose_mat bp) of
                     Inl e \<Rightarrow> Inl e
                   | Inr X \<Rightarrow> iadd_slab y n X)
           y = Inr y'"
    and "same_dims y x"
  shows "same_dims y' x"
proof (rule for_each_invariant[OF assms(1), where P = "\<lambda>u. same_dims u x"])
  show "same_dims y x" by fact
next
  fix i u u'
  assume u: "same_dims u x"
    and step: "(case dot (sample_slab x (i - k)) (transpose_mat bp) of
                     Inl e \<Rightarrow> Inl e
                   | Inr X \<Rightarrow> iadd_slab u i X) = Inr u'"
  from step obtain X where "iadd_slab u i X = Inr u'" by (auto split: sum.splits)
  from iadd_slab_dims[OF this] u show "same_dims u' x" by (simp add: same_dims_def)
qed

text \<open>
  The claim C6 as it was stated has the two strategies agree for every input.  For data
  with fewer samples than the order, here three samples and order four, the first strategy
  runs no iteration and returns the zeros, while the second raises: at lag 4 the slice
  \<^verbatim>\<open>data[s, :, 0:-1]\<close> has two samples, and they cannot be added to the empty
  \<^verbatim>\<open>y[s, :, 4:]\<close>.  (\<^verbatim>\<open>predict\<close> selects the first strategy for such data.)
\<close>

theorem predict_lag_trial_short_data:
  "predict_lag_sample cf_ce x_ce 4 (zeros3 1 1 3) = Inr (zeros3 1 1 3) \<and>
   predict_lag_trial cf_ce x_ce 4 (zeros3 1 1 3) = Inl ValueError"
proof
  have l: "dim2 x_ce = 3" by (simp add: x_ce_def ten_of_rows_def)
  have ks: "[Suc 0..<5] = [Suc 0, 2, 3, 4]" by code_simp
  show "predict_lag_sample cf_ce x_ce 4 (zeros3 1 1 3) = Inr (zeros3 1 1 3)"
    by (simp add: predict_lag_sample_def ks l cols_step_def)
  have "map_sum id (\<lambda>y. ()) (predict_lag_trial cf_ce x_ce 4 (zeros3 1 1 3)) = Inl ValueError"
    by code_simp
  then show "predict_lag_trial cf_ce x_ce 4 (zeros3 1 1 3) = Inl ValueError"
    by (cases "predict_lag_trial cf_ce x_ce 4 (zeros3 1 1 3)") simp_all
qed

text \<open>
  C6 (as amended).  For data with at least \<open>p\<close> samples the two strategies return the same
  result, an array or an exception, whenever both loops run at least once (more than \<open>p\<close>
  samples and at least one trial) or the coefficient array has \<open>m p\<close> columns and \<open>m\<close> rows
  (or one row, which numpy broadcasts).
\<close>

theorem predict_strategies_agree:
  assumes p: "p \<le> dim2 x"
    and shape: "(p < dim2 x \<and> 0 < dim0 x) \<or>
                (ncols cf = dim1 x * p \<and> (nrows cf = dim1 x \<or> nrows cf = 1))"
  shows "predict_lag_sample cf x p (zeros3 (dim0 x) (dim1 x) (dim2 x))
           = predict_lag_trial cf x p (zeros3 (dim0 x) (dim1 x) (dim2 x))"
  unfolding predict_lag_sample_def predict_lag_trial_def
proof (rule for_each_cong_inv[where P = "\<lambda>u. same_dims u x"])
  show "same_dims (zeros3 (dim0 x) (dim1 x) (dim2 x)) x"
    by (simp add: same_dims_def zeros3_def)
next
  fix k u
  assume k: "k \<in> set [1..<Suc p]" and u: "same_dims u x"
  then have k1: "1 \<le> k" "k \<le> p" "k - 1 < p" "0 < p" by auto
  define bp where "bp = Mat (nrows cf) (step_count (ncols cf) (k - 1) p)
                          (\<lambda>i j. ent cf i (k - 1 + j * p))"
  have bp: "cols_step cf (k - 1) p = Inr bp"
    using k1(4) by (simp add: cols_step_def bp_def)
  have shape': "(p < dim2 x \<and> 0 < dim0 x) \<or>
                (ncols bp = dim1 x \<and> (nrows bp = dim1 x \<or> nrows bp = 1))"
  proof (cases "p < dim2 x \<and> 0 < dim0 x")
    case True
    then show ?thesis by simp
  next
    case False
    then have good: "ncols cf = dim1 x * p" "nrows cf = dim1 x \<or> nrows cf = 1"
      using shape by auto
    have "ncols bp = dim1 x"
      using step_count_exact[OF k1(3), of "dim1 x"] by (simp add: bp_def good(1))
    moreover have "nrows bp = nrows cf" by (simp add: bp_def)
    ultimately show ?thesis using good(2) by simp
  qed
  show "(case cols_step cf (k - 1) p of
           Inl e \<Rightarrow> Inl e
         | Inr bp \<Rightarrow>
             for_each [p..<dim2 x]
               (\<lambda>n y. case dot (sample_slab x (n - k)) (transpose_mat bp) of
                         Inl e \<Rightarrow> Inl e
                       | Inr X \<Rightarrow> iadd_slab y n X)
               u)
        = (case cols_step cf (k - 1) p of
           Inl e \<Rightarrow> Inl e
         | Inr bp \<Rightarrow>
             for_each [0..<dim0 x]
               (\<lambda>s y. case dot bp (trial_window x s (int p - int k) (int (dim2 x) - int k)) of
                         Inl e \<Rightarrow> Inl e
                       | Inr X \<Rightarrow> iadd_trial y s p X)
               u)"
    unfolding bp using lag_loops_agree[OF u k1(2) p shape'] by simp
next
  fix k u u'
  assume u: "same_dims u x"
    and step: "(case cols_step cf (k - 1) p of
           Inl e \<Rightarrow> Inl e
         | Inr bp \<Rightarrow>
             for_each [p..<dim2 x]
               (\<lambda>n y. case dot (sample_slab x (n - k)) (transpose_mat bp) of
                         Inl e \<Rightarrow> Inl e
                       | Inr X \<Rightarrow> iadd_slab y n X)
               u) = Inr u'"
  from step obtain bp where
    "for_each [p..<dim2 x]
               (\<lambda>n y. case dot (sample_slab x (n - k)) (transpose_mat bp) of
                         Inl e \<Rightarrow> Inl e
                       | Inr X \<Rightarrow> iadd_slab y n X)
               u = Inr u'"
    by (auto split: sum.splits)
  from sample_loop_dims[OF this u] show "same_dims u' x" .
qed

theorem predict_strategies_agree_witness:
  "predict_lag_sample cf_ok x_ce 2 (zeros3 1 1 3) = predict_lag_trial cf_ok x_ce 2 (zeros3 1 1 3) \<and>
   map_sum id (\<lambda>y. tent y 0 0 2) (predict_lag_trial cf_ok x_ce 2 (zeros3 1 1 3)) = Inr (5 / 4)"
proof
  have dims: "dim0 x_ce = 1" "dim1 x_ce = 1" "dim2 x_ce = 3"
    by (simp_all add: x_ce_def ten_of_rows_def)
  have shp: "ncols cf_ok = 2" "nrows cf_ok = 1" by (simp_all add: cf_ok_def mat_of_rows_def)
  show "predict_lag_sample cf_ok x_ce 2 (zeros3 1 1 3) = predict_lag_trial cf_ok x_ce 2 (zeros3 1 1 3)"
    using predict_strategies_agree[of 2 x_ce cf_ok] by (simp add: dims shp)
  show "map_sum id (\<lambda>y. tent y 0 0 2) (predict_lag_trial cf_ok x_ce 2 (zeros3 1 1 3)) = Inr (5 / 4)"
    by code_simp
qed

section \<open>The simulated process\<close>

lemma lag_sum_Suc:
  "lag_sum cf p y i s c (Suc q)
     = lag_sum cf p y i s c q + (\<Sum>j<dim1 y. ent cf c (j * p + q) * tent y (i - Suc q) j s)"
  by (simp add: lag_sum_def)

lemma lag_sum_cong:
  assumes "dim1 y' = dim1 y" and "\<And>k j. 1 \<le> k \<Longrightarrow> k \<le> q \<Longrightarrow> j < dim1 y \<Longrightarrow> tent y' (i - k) j s = tent y (i - k) j s"
  shows "lag_sum cf p y' i s c q = lag_sum cf p y i s c q"
  unfolding lag_sum_def assms(1)
  by (intro sum.cong refl) (simp add: assms(2))

lemma sim_lag_step:
  assumes dims: "dim0 y = n" "dim1 y = m" "dim2 y = t"
    and cf: "nrows cf = m" "ncols cf = m * p"
    and pos: "i < n" "s < t" "p \<le> i" and q: "Suc q \<le> p"
  shows "(case cols_step cf (Suc q - 1) p of
            Inl er \<Rightarrow> Inl er
          | Inr bp \<Rightarrow>
              (case dot_vec bp
                      (sample_at (Ten n m t (\<lambda>i' c s'. if i' = i \<and> s' = s \<and> c < m
                                               then tent y i c s + lag_sum cf p y i s c q
                                               else tent y i' c s'))
                         (i - Suc q) s) of
                 Inl er \<Rightarrow> Inl er
               | Inr w \<Rightarrow>
                   iadd_sample (Ten n m t (\<lambda>i' c s'. if i' = i \<and> s' = s \<and> c < m
                                               then tent y i c s + lag_sum cf p y i s c q
                                               else tent y i' c s'))
                     i s w))
         = Inr (Ten n m t (\<lambda>i' c s'. if i' = i \<and> s' = s \<and> c < m
                                        then tent y i c s + lag_sum cf p y i s c (Suc q)
                                        else tent y i' c s'))"
proof -
  define u where "u = Ten n m t (\<lambda>i' c s'. if i' = i \<and> s' = s \<and> c < m
                                               then tent y i c s + lag_sum cf p y i s c q
                                               else tent y i' c s')"
  define bp where "bp = Mat m m (\<lambda>r j. ent cf r (q + j * p))"
  define w where "w = Vec m (\<lambda>r. sum_list (map (\<lambda>j. ent cf r (q + j * p) * tent y (i - Suc q) j s) [0..<m]))"
  have qp: "q < p" "0 < p" using q by simp_all
  have cnt: "step_count (m * p) q p = m"
    using step_count_exact[where q = m and i = q and s = p] qp(1) by simp
  have cs: "cols_step cf (Suc q - 1) p = Inr bp"
    using qp by (simp add: cols_step_def bp_def cnt cf)
  have ne: "i - Suc q \<noteq> i" using pos q by simp
  have sa: "sample_at u (i - Suc q) s = Vec m (\<lambda>c. tent y (i - Suc q) c s)"
    using ne by (simp add: sample_at_def u_def)
  have dv: "dot_vec bp (Vec m (\<lambda>c. tent y (i - Suc q) c s)) = Inr w"
    by (simp add: dot_vec_def bp_def w_def)
  have b: "bidx m c = c" if "c < m" for c using that by (auto simp: bidx_def)
  have wv: "vent w (bidx m c) = (\<Sum>j<m. ent cf c (j * p + q) * tent y (i - Suc q) j s)"
    if "c < m" for c
    by (simp add: w_def b[OF that] sum_list_upt_sum add.commute)
  have fn: "(\<lambda>i' c s'. if i' = i \<and> s' = s \<and> i < dim0 u \<and> c < dim1 u \<and> s < dim2 u
                         then tent u i' c s' + vent w (bidx (vlen w) c) else tent u i' c s')
          = (\<lambda>i' c s'. if i' = i \<and> s' = s \<and> c < m
                                        then tent y i c s + lag_sum cf p y i s c (Suc q)
                                        else tent y i' c s')"
  proof (intro ext)
    fix i' c s'
    show "(if i' = i \<and> s' = s \<and> i < dim0 u \<and> c < dim1 u \<and> s < dim2 u
                         then tent u i' c s' + vent w (bidx (vlen w) c) else tent u i' c s')
          = (if i' = i \<and> s' = s \<and> c < m
                                        then tent y i c s + lag_sum cf p y i s c (Suc q)
                                        else tent y i' c s')"
    proof (cases "i' = i \<and> s' = s \<and> c < m")
      case True
      have "vlen w = m" by (simp add: w_def)
      then show ?thesis
        using True pos wv[of c] by (simp add: u_def lag_sum_Suc dims)
    next
      case False
      then show ?thesis by (auto simp: u_def)
    qed
  qed
  have ia: "iadd_sample u i s w
              = Inr (Ten n m t (\<lambda>i' c s'. if i' = i \<and> s' = s \<and> c < m
                                        then tent y i c s + lag_sum cf p y i s c (Suc q)
                                        else tent y i' c s'))"
    unfolding iadd_sample_def fn by (simp add: u_def w_def)
  show ?thesis
    unfolding u_def[symmetric] cs sum.case sa dv ia ..
qed

lemma sim_lags:
  assumes dims: "dim0 y = n" "dim1 y = m" "dim2 y = t"
    and cf: "nrows cf = m" "ncols cf = m * p"
    and pos: "i < n" "s < t" "p \<le> i" and q: "q \<le> p"
  shows "for_each [1..<Suc q]
           (\<lambda>k y. case cols_step cf (k - 1) p of
                     Inl er \<Rightarrow> Inl er
                   | Inr bp \<Rightarrow>
                       (case dot_vec bp (sample_at y (i - k) s) of
                          Inl er \<Rightarrow> Inl er
                        | Inr w \<Rightarrow> iadd_sample y i s w))
           y
         = Inr (Ten n m t (\<lambda>i' c s'. if i' = i \<and> s' = s \<and> c < m
                                        then tent y i c s + lag_sum cf p y i s c q
                                        else tent y i' c s'))"
  using q
proof (induction q)
  case 0
  show ?case using dims by (cases y) (auto simp: lag_sum_def fun_eq_iff)
next
  case (Suc q)
  have split: "[1..<Suc (Suc q)] = [1..<Suc q] @ [Suc q]" by simp
  have IH: "for_each [1..<Suc q]
           (\<lambda>k y. case cols_step cf (k - 1) p of
                     Inl er \<Rightarrow> Inl er
                   | Inr bp \<Rightarrow>
                       (case dot_vec bp (sample_at y (i - k) s) of
                          Inl er \<Rightarrow> Inl er
                        | Inr w \<Rightarrow> iadd_sample y i s w))
           y
         = Inr (Ten n m t (\<lambda>i' c s'. if i' = i \<and> s' = s \<and> c < m
                                        then tent y i c s + lag_sum cf p y i s c q
                                        else tent y i' c s'))"
    using Suc by simp
  show ?case
    unfolding split for_each_append IH
    using sim_lag_step[OF dims cf pos Suc.prems] by simp
qed

lemma sim_eqn_frame:
  assumes "dim1 y' = dim1 y"
    and "\<And>i'' c. i'' \<le> i' \<Longrightarrow> tent y' i'' c s' = tent y i'' c s'"
  shows "sim_eqn cf p nf g0 n y' s' i' = sim_eqn cf p nf g0 n y s' i'"
proof -
  have "lag_sum cf p y' i' s' c p = lag_sum cf p y i' s' c p" for c
    by (rule lag_sum_cong) (simp_all add: assms)
  then show ?thesis
    unfolding sim_eqn_def by (simp add: assms)
qed

lemma sim_warm_run:
  assumes draws: "vlen (fst (nf g)) = m"
    and dims: "dim0 y = n" "dim1 y = m" "dim2 y = t" "dim0 res = n" "dim1 res = m" "dim2 res = t"
    and pos: "i < n" "s < t"
  shows "sim_warm nf s i (y, res, g)
           = Inr (Ten n m t (\<lambda>i' c s'. if i' = i \<and> s' = s \<and> c < m
                                          then vent (fst (nf g)) c else tent y i' c s'),
                  Ten n m t (\<lambda>i' c s'. if i' = i \<and> s' = s \<and> c < m
                                          then vent (fst (nf g)) c else tent res i' c s'),
                  snd (nf g))"
proof -
  obtain e g' where eg: "nf g = (e, g')" by (cases "nf g")
  have e: "vlen e = m" using draws eg by simp
  have b: "bidx m c = c" if "c < m" for c using that by (auto simp: bidx_def)
  have fn: "(\<lambda>i' c s'. if i' = i \<and> s' = s \<and> i < n \<and> c < m \<and> s < t
                         then vent e (bidx m c) else tent z i' c s')
          = (\<lambda>i' c s'. if i' = i \<and> s' = s \<and> c < m then vent e c else tent z i' c s')" for z
    using pos by (auto simp: fun_eq_iff b)
  have a: "assign_sample res i s e
            = Inr (Ten n m t (\<lambda>i' c s'. if i' = i \<and> s' = s \<and> c < m
                                          then vent e c else tent res i' c s'))"
    unfolding assign_sample_def dims e fn by simp
  have a': "assign_sample y i s e
            = Inr (Ten n m t (\<lambda>i' c s'. if i' = i \<and> s' = s \<and> c < m
                                          then vent e c else tent y i' c s'))"
    unfolding assign_sample_def dims e fn by simp
  have fe: "fst (nf g) = e" "snd (nf g) = g'" using eg by simp_all
  show ?thesis
    unfolding sim_warm_def fe by (simp add: eg a a')
qed

lemma funpow_next: "snd (nf (((\<lambda>g. snd (nf g)) ^^ k) g0)) = ((\<lambda>g. snd (nf g)) ^^ Suc k) g0"
  by simp

lemma sim_warm_inv:
  assumes inv: "sim_inv cf p nf g0 n m t s i st"
    and draws: "\<forall>g. vlen (fst (nf g)) = m"
    and pos: "i < n" "s < t" "i < p"
  shows "\<exists>st'. sim_warm nf s i st = Inr st' \<and> sim_inv cf p nf g0 n m t s (Suc i) st'"
proof -
  obtain y res g where st: "st = (y, res, g)" by (cases st)
  have dims: "dim0 y = n" "dim1 y = m" "dim2 y = t" "dim0 res = n" "dim1 res = m" "dim2 res = t"
    and g: "g = ((\<lambda>g. snd (nf g)) ^^ (s * n + i)) g0"
    and eqs: "\<And>s' i'. i' < n \<Longrightarrow> s' < s \<or> (s' = s \<and> i' < i) \<Longrightarrow> sim_eqn cf p nf g0 n y s' i'"
    using inv unfolding sim_inv_def st by auto
  define y' where "y' = Ten n m t (\<lambda>i' c s'. if i' = i \<and> s' = s \<and> c < m
                                          then vent (fst (nf g)) c else tent y i' c s')"
  define res' where "res' = Ten n m t (\<lambda>i' c s'. if i' = i \<and> s' = s \<and> c < m
                                          then vent (fst (nf g)) c else tent res i' c s')"
  have run: "sim_warm nf s i st = Inr (y', res', snd (nf g))"
    unfolding st y'_def res'_def
    using draws by (intro sim_warm_run dims pos) simp
  have draw: "fst (nf g) = nth_draw nf g0 (s * n + i)"
    by (simp add: nth_draw_def g)
  have new: "sim_eqn cf p nf g0 n y' s i"
    unfolding sim_eqn_def using pos(3) by (simp add: y'_def draw)
  have old: "sim_eqn cf p nf g0 n y' s' i'" if "i' < n" "s' < s \<or> (s' = s \<and> i' < i)" for s' i'
  proof -
    have "sim_eqn cf p nf g0 n y' s' i' = sim_eqn cf p nf g0 n y s' i'"
    proof (rule sim_eqn_frame)
      show "dim1 y' = dim1 y" by (simp add: y'_def dims)
      show "tent y' i'' c s' = tent y i'' c s'" if "i'' \<le> i'" for i'' c
        using that \<open>s' < s \<or> (s' = s \<and> i' < i)\<close> by (auto simp: y'_def)
    qed
    then show ?thesis using eqs[OF that] by simp
  qed
  have all: "sim_eqn cf p nf g0 n y' s' i'" if "i' < n" "s' < s \<or> (s' = s \<and> i' < Suc i)" for s' i'
  proof (cases "s' = s \<and> i' = i")
    case True
    then show ?thesis using new by simp
  next
    case False
    then have "s' < s \<or> (s' = s \<and> i' < i)" using that(2) by auto
    then show ?thesis using old that(1) by simp
  qed
  have g': "snd (nf g) = ((\<lambda>g. snd (nf g)) ^^ (s * n + Suc i)) g0"
    unfolding g by simp
  have "sim_inv cf p nf g0 n m t s (Suc i) (y', res', snd (nf g))"
    unfolding sim_inv_def prod.case
    using all g' by (simp add: y'_def res'_def)
  with run show ?thesis by blast
qed

lemma sim_step_inv:
  assumes inv: "sim_inv cf p nf g0 n m t s i st"
    and draws: "\<forall>g. vlen (fst (nf g)) = m"
    and cf: "nrows cf = m" "ncols cf = m * p"
    and pos: "i < n" "s < t" "p \<le> i"
  shows "\<exists>st'. sim_step cf p nf s i st = Inr st' \<and> sim_inv cf p nf g0 n m t s (Suc i) st'"
proof -
  obtain y res g where st: "st = (y, res, g)" by (cases st)
  have dims: "dim0 y = n" "dim1 y = m" "dim2 y = t" "dim0 res = n" "dim1 res = m" "dim2 res = t"
    and g: "g = ((\<lambda>g. snd (nf g)) ^^ (s * n + i)) g0"
    and eqs: "\<And>s' i'. i' < n \<Longrightarrow> s' < s \<or> (s' = s \<and> i' < i) \<Longrightarrow> sim_eqn cf p nf g0 n y s' i'"
    using inv unfolding sim_inv_def st by auto
  define y1 where "y1 = Ten n m t (\<lambda>i' c s'. if i' = i \<and> s' = s \<and> c < m
                                          then vent (fst (nf g)) c else tent y i' c s')"
  define res' where "res' = Ten n m t (\<lambda>i' c s'. if i' = i \<and> s' = s \<and> c < m
                                          then vent (fst (nf g)) c else tent res i' c s')"
  define y2 where "y2 = Ten n m t (\<lambda>i' c s'. if i' = i \<and> s' = s \<and> c < m
                                        then tent y1 i c s + lag_sum cf p y1 i s c p
                                        else tent y1 i' c s')"
  have warm: "sim_warm nf s i st = Inr (y1, res', snd (nf g))"
    unfolding st y1_def res'_def
    using draws by (intro sim_warm_run dims pos(1,2)) simp
  have d1: "dim0 y1 = n" "dim1 y1 = m" "dim2 y1 = t" by (simp_all add: y1_def)
  have lags: "for_each [1..<Suc p]
           (\<lambda>k y. case cols_step cf (k - 1) p of
                     Inl er \<Rightarrow> Inl er
                   | Inr bp \<Rightarrow>
                       (case dot_vec bp (sample_at y (i - k) s) of
                          Inl er \<Rightarrow> Inl er
                        | Inr w \<Rightarrow> iadd_sample y i s w))
           y1 = Inr y2"
    unfolding y2_def by (rule sim_lags[OF d1 cf pos order_refl])
  have run: "sim_step cf p nf s i st = Inr (y2, res', snd (nf g))"
    unfolding sim_step_def warm sum.case prod.case lags by simp
  have draw: "fst (nf g) = nth_draw nf g0 (s * n + i)"
    by (simp add: nth_draw_def g)
  have same: "lag_sum cf p y2 i s c p = lag_sum cf p y1 i s c p" for c
  proof (rule lag_sum_cong)
    show "dim1 y2 = dim1 y1" by (simp add: y2_def y1_def)
    show "tent y2 (i - k) j s = tent y1 (i - k) j s" if "1 \<le> k" "k \<le> p" for k j
    proof -
      have "i - k \<noteq> i" using that pos(3) by simp
      then show ?thesis by (simp add: y2_def)
    qed
  qed
  have new: "sim_eqn cf p nf g0 n y2 s i"
    unfolding sim_eqn_def same
  proof (intro allI impI)
    fix c assume "c < dim1 y2"
    then have c: "c < m" by (simp add: y2_def)
    have "tent y2 i c s = tent y1 i c s + lag_sum cf p y1 i s c p"
      using c by (simp add: y2_def)
    moreover have "tent y1 i c s = vent (nth_draw nf g0 (s * n + i)) c"
      using c by (simp add: y1_def draw)
    ultimately show "tent y2 i c s = vent (nth_draw nf g0 (s * n + i)) c
                       + (if i < p then 0 else lag_sum cf p y1 i s c p)"
      using pos(3) by simp
  qed
  have old: "sim_eqn cf p nf g0 n y2 s' i'" if "i' < n" "s' < s \<or> (s' = s \<and> i' < i)" for s' i'
  proof -
    have "sim_eqn cf p nf g0 n y2 s' i' = sim_eqn cf p nf g0 n y s' i'"
    proof (rule sim_eqn_frame)
      show "dim1 y2 = dim1 y" by (simp add: y2_def dims)
      show "tent y2 i'' c s' = tent y i'' c s'" if "i'' \<le> i'" for i'' c
        using that \<open>s' < s \<or> (s' = s \<and> i' < i)\<close> by (auto simp: y2_def y1_def)
    qed
    then show ?thesis using eqs[OF that] by simp
  qed
  have all: "sim_eqn cf p nf g0 n y2 s' i'" if "i' < n" "s' < s \<or> (s' = s \<and> i' < Suc i)" for s' i'
  proof (cases "s' = s \<and> i' = i")
    case True
    then show ?thesis using new by simp
  next
    case False
    then have "s' < s \<or> (s' = s \<and> i' < i)" using that(2) by auto
    then show ?thesis using old that(1) by simp
  qed
  have g': "snd (nf g) = ((\<lambda>g. snd (nf g)) ^^ (s * n + Suc i)) g0"
    unfolding g by simp
  have "sim_inv cf p nf g0 n m t s (Suc i) (y2, res', snd (nf g))"
    unfolding sim_inv_def prod.case
    using all g' by (simp add: y2_def res'_def)
  with run show ?thesis by blast
qed

lemma sim_inv_next_trial:
  "sim_inv cf p nf g0 n m t s n st = sim_inv cf p nf g0 n m t (Suc s) 0 st"
proof -
  obtain y res g where st: "st = (y, res, g)" by (cases st)
  have cnt: "Suc s * n + 0 = s * n + n" by simp
  have fin: "(i' < n \<and> (s' < s \<or> (s' = s \<and> i' < n)))
               = (i' < n \<and> (s' < Suc s \<or> (s' = Suc s \<and> i' < 0)))" for s' i' :: nat
    by auto
  show ?thesis
    unfolding sim_inv_def st prod.case cnt fin ..
qed

lemma sim_trial_inv:
  assumes inv: "sim_inv cf p nf g0 n m t s 0 st"
    and draws: "\<forall>g. vlen (fst (nf g)) = m"
    and cf: "nrows cf = m" "ncols cf = m * p"
    and pn: "p \<le> n" and s: "s < t"
  shows "\<exists>st'. sim_trial cf p n nf s st = Inr st' \<and> sim_inv cf p nf g0 n m t (Suc s) 0 st'"
proof -
  have "\<exists>u. for_each [0..<p] (sim_warm nf s) st = Inr u \<and> sim_inv cf p nf g0 n m t s p u"
  proof (rule for_each_steps[where I = "\<lambda>i. sim_inv cf p nf g0 n m t s i"])
    show "sim_inv cf p nf g0 n m t s 0 st" by fact
    show "0 \<le> p" by simp
    show "\<exists>st'. sim_warm nf s i u = Inr st' \<and> sim_inv cf p nf g0 n m t s (Suc i) st'"
      if "0 \<le> i" "i < p" "sim_inv cf p nf g0 n m t s i u" for i u
      using that pn by (intro sim_warm_inv[OF that(3) draws] s) simp_all
  qed
  then obtain u where u: "for_each [0..<p] (sim_warm nf s) st = Inr u"
    "sim_inv cf p nf g0 n m t s p u" by blast
  have "\<exists>st'. for_each [p..<n] (sim_step cf p nf s) u = Inr st' \<and> sim_inv cf p nf g0 n m t s n st'"
  proof (rule for_each_steps[where I = "\<lambda>i. sim_inv cf p nf g0 n m t s i"])
    show "sim_inv cf p nf g0 n m t s p u" by fact
    show "p \<le> n" by fact
    show "\<exists>st'. sim_step cf p nf s i v = Inr st' \<and> sim_inv cf p nf g0 n m t s (Suc i) st'"
      if "p \<le> i" "i < n" "sim_inv cf p nf g0 n m t s i v" for i v
      using that by (intro sim_step_inv[OF that(3) draws cf] s) simp_all
  qed
  then obtain st' where st': "for_each [p..<n] (sim_step cf p nf s) u = Inr st'"
    "sim_inv cf p nf g0 n m t s n st'" by blast
  have "sim_trial cf p n nf s st = Inr st'"
    unfolding sim_trial_def u(1) using st'(1) by simp
  with st'(2) show ?thesis unfolding sim_inv_next_trial by blast
qed

lemma sim_trials_inv:
  assumes draws: "\<forall>g. vlen (fst (nf g)) = m"
    and cf: "nrows cf = m" "ncols cf = m * p"
    and pn: "p \<le> n"
  shows "\<exists>st'. for_each [0..<t] (sim_trial cf p n nf) (zeros3 n m t, zeros3 n m t, g0) = Inr st' \<and>
           sim_inv cf p nf g0 n m t t 0 st'"
proof (rule for_each_steps[where I = "\<lambda>s. sim_inv cf p nf g0 n m t s 0"])
  show "sim_inv cf p nf g0 n m t 0 0 (zeros3 n m t, zeros3 n m t, g0)"
    by (simp add: sim_inv_def zeros3_def)
  show "0 \<le> t" by simp
  show "\<exists>st'. sim_trial cf p n nf s u = Inr st' \<and> sim_inv cf p nf g0 n m t (Suc s) 0 st'"
    if "0 \<le> s" "s < t" "sim_inv cf p nf g0 n m t s 0 u" for s u
    using that by (intro sim_trial_inv[OF that(3) draws cf pn]) simp
qed

text \<open>
  C9.  For a model whose coefficient array has \<open>m \<ge> 1\<close> rows and \<open>m p\<close> columns, a requested
  length \<open>l\<close> (one trial) or \<open>(l, t)\<close>, and a noise function whose draws have one value per
  channel, \<^verbatim>\<open>simulate\<close> returns an array \<open>out\<close> of shape \<open>(t, m, l)\<close>.  There is the array
  \<open>y\<close> of the \<open>l + 10 p\<close> samples generated per trial, of which \<open>out\<close> holds the last \<open>l\<close>: the
  first \<open>10 p\<close> are discarded.  Every sample of \<open>y\<close> from index \<open>p\<close> on, so every retained one,
  is a draw of its own, draw number \<open>s (l + 10 p) + i\<close> for sample \<open>i\<close> of trial \<open>s\<close>, plus the
  sum over \<open>k = 1..p\<close> of the block \<^verbatim>\<open>coef[:, (k - 1)::p]\<close> applied to the sample \<open>k\<close> places
  before.
\<close>

theorem simulate_result:
  assumes coef: "coef self = Some a"
    and cf: "nrows (mats h a) = m" "ncols (mats h a) = m * p" and m: "0 < m"
    and larg: "(case larg of Samples l' \<Rightarrow> (l', 1) | SamplesTrials l' t' \<Rightarrow> (l', t')) = (l, t)"
    and nf: "nf = (case noisefunc of None \<Rightarrow> (\<lambda>g. normal E g m) | Some f \<Rightarrow> f)"
    and draws: "\<forall>g. vlen (fst (nf g)) = m"
  shows "\<exists>out self' h' g' y.
           simulate E h self larg noisefunc g0 = Inr (out, self', h', g') \<and>
           dim0 out = t \<and> dim1 out = m \<and> dim2 out = l \<and>
           dim0 y = l + 10 * p \<and>
           (\<forall>s<t. \<forall>c<m. \<forall>j<l. tent out s c j = tent y (10 * p + j) c s) \<and>
           (\<forall>s<t. \<forall>c<m. \<forall>i<l + 10 * p. p \<le> i \<longrightarrow>
              tent y i c s =
                vent (nth_draw nf g0 (s * (l + 10 * p) + i)) c
                  + (\<Sum>k = 1..p. \<Sum>j<m. ent (mats h a) c (j * p + (k - 1)) * tent y (i - k) j s))"
proof -
  let ?cf = "mats h a"
  let ?n = "l + 10 * p"
  have pn: "p \<le> ?n" by simp
  from sim_trials_inv[OF draws cf pn, of t g0] obtain st' where
    loops: "for_each [0..<t] (sim_trial ?cf p ?n nf) (zeros3 ?n m t, zeros3 ?n m t, g0) = Inr st'"
    and inv: "sim_inv ?cf p nf g0 ?n m t t 0 st'"
    by blast
  obtain y res g where st': "st' = (y, res, g)" by (cases st')
  have dims: "dim0 y = ?n" "dim1 y = m" "dim2 y = t"
    and eqs: "\<And>s i. i < ?n \<Longrightarrow> s < t \<Longrightarrow> sim_eqn ?cf p nf g0 ?n y s i"
    using inv unfolding sim_inv_def st' by auto
  have pdiv: "m * p div m = p" using m by simp
  define h1 where "h1 = snd (alloc_ten h (drop_transpose res (10 * p)))"
  define ra where "ra = fst (alloc_ten h (drop_transpose res (10 * p)))"
  define h2 where "h2 = snd (alloc_mat h1 (np_cov E (transpose_mat (cat_trials E (tens h1 ra)))))"
  define ca where "ca = fst (alloc_mat h1 (np_cov E (transpose_mat (cat_trials E (tens h1 ra)))))"
  let ?out = "drop_transpose y (10 * p)"
  have run: "simulate E h self larg noisefunc g0
               = Inr (?out, self\<lparr>residuals := Some ra, rescov := Some ca\<rparr>, h2, g)"
    unfolding simulate_def Let_def coef option.case cf pdiv larg prod.case nf[symmetric]
    using m loops
    by (simp add: st' h1_def ra_def h2_def ca_def split_beta)
  have od: "dim0 ?out = t" "dim1 ?out = m" "dim2 ?out = l"
    by (simp_all add: drop_transpose_def dims)
  have oe: "tent ?out s c j = tent y (10 * p + j) c s" for s c j
    by (simp add: drop_transpose_def dims)
  have rec: "tent y i c s =
                vent (nth_draw nf g0 (s * ?n + i)) c
                  + (\<Sum>k = 1..p. \<Sum>j<m. ent ?cf c (j * p + (k - 1)) * tent y (i - k) j s)"
    if "s < t" "c < m" "i < ?n" "p \<le> i" for s c i
    using eqs[OF that(3) that(1)] that(2,4)
    unfolding sim_eqn_def lag_sum_def dims by simp
  show ?thesis
    using run od oe rec dims(1) by (intro exI[of _ ?out] exI[of _ "self\<lparr>residuals := Some ra, rescov := Some ca\<rparr>"]
        exI[of _ h2] exI[of _ g] exI[of _ y]) simp
qed

lemma sim_env0_draw: "nth_draw (\<lambda>g. normal sim_env0 g m) 0 i = Vec m (\<lambda>c. real i)"
proof -
  have "((\<lambda>g. snd (normal sim_env0 g m)) ^^ k) 0 = k" for k
    by (induction k) (simp_all add: sim_env0_def)
  then show ?thesis by (simp add: nth_draw_def sim_env0_def)
qed

theorem simulate_result_witness:
  "\<exists>out self' h' g'.
     simulate sim_env0 heap_sim var_sim (Samples 2) None 0 = Inr (out, self', h', g') \<and>
     dim0 out = 1 \<and> dim1 out = 1 \<and> dim2 out = 2 \<and>
     tent out 0 0 1 = 11 + 1 / 2 * tent out 0 0 0"
proof -
  have hyp: "coef var_sim = Some 0" "nrows (mats heap_sim 0) = 1" "ncols (mats heap_sim 0) = 1 * 1"
    "(0::nat) < 1"
    "(case Samples 2 of Samples l' \<Rightarrow> (l', 1) | SamplesTrials l' t' \<Rightarrow> (l', t')) = (2, 1::nat)"
    "(\<lambda>g. normal sim_env0 g 1) = (case None of None \<Rightarrow> (\<lambda>g. normal sim_env0 g 1) | Some f \<Rightarrow> f)"
    "\<forall>g. vlen (fst (normal sim_env0 g 1)) = 1"
    by (simp_all add: var_sim_def heap_sim_def heap0_def alloc_mat_def mat_of_rows_def sim_env0_def)
  from simulate_result[OF hyp, of 0]
  obtain out self' h' g' y where
    run: "simulate sim_env0 heap_sim var_sim (Samples 2) None 0 = Inr (out, self', h', g')"
    and od: "dim0 out = 1" "dim1 out = 1" "dim2 out = 2"
    and oe: "\<forall>s<1. \<forall>c<1. \<forall>j<2. tent out s c j = tent y (10 * 1 + j) c s"
    and rec: "\<forall>s<1. \<forall>c<1. \<forall>i<2 + 10 * 1. 1 \<le> i \<longrightarrow>
              tent y i c s =
                vent (nth_draw (\<lambda>g. normal sim_env0 g 1) 0 (s * (2 + 10 * 1) + i)) c
                  + (\<Sum>k = 1..1. \<Sum>j<1. ent (mats heap_sim 0) c (j * 1 + (k - 1)) * tent y (i - k) j s)"
    by (elim exE conjE) (rule that)
  have cfv: "ent (mats heap_sim 0) 0 0 = 1 / 2"
    by (simp add: heap_sim_def heap0_def alloc_mat_def mat_of_rows_def)
  have "tent y 11 0 0 = vent (nth_draw (\<lambda>g. normal sim_env0 g 1) 0 11) 0
                          + ent (mats heap_sim 0) 0 0 * tent y 10 0 0"
    using rec[rule_format, of 0 0 11] by simp
  then have "tent y 11 0 0 = 11 + 1 / 2 * tent y 10 0 0"
    by (simp add: sim_env0_draw cfv)
  moreover have "tent out 0 0 1 = tent y 11 0 0" "tent out 0 0 0 = tent y 10 0 0"
    using oe by simp_all
  ultimately have "tent out 0 0 1 = 11 + 1 / 2 * tent out 0 0 0" by simp
  with run od show ?thesis by blast
qed

section \<open>The Portmanteau statistics\<close>

lemma q_first_loop:
  assumes "\<And>l. 1 \<le> l \<Longrightarrow> l \<le> H \<Longrightarrow> q_tmp E x l = Inr (tm l)"
  shows "for_each [1..<Suc H]
           (\<lambda>l q. case q_tmp E x l of
                     Inl e \<Rightarrow> Inl e
                   | Inr tmp \<Rightarrow>
                       Inr (set_ent
                              (set_ent (set_ent q 0 l tmp) 1 l (tmp / real_of_int (nt - int l)))
                              2 l tmp))
           q = Inr (q_fill tm nt H q)"
  using assms
proof (induction H)
  case 0
  show ?case by (cases q) (auto simp: q_fill_def fun_eq_iff)
next
  case (Suc H)
  have split: "[1..<Suc (Suc H)] = [1..<Suc H] @ [Suc H]" by simp
  have tmS: "q_tmp E x (Suc H) = Inr (tm (Suc H))" using Suc.prems by simp
  have IH: "for_each [1..<Suc H]
           (\<lambda>l q. case q_tmp E x l of
                     Inl e \<Rightarrow> Inl e
                   | Inr tmp \<Rightarrow>
                       Inr (set_ent
                              (set_ent (set_ent q 0 l tmp) 1 l (tmp / real_of_int (nt - int l)))
                              2 l tmp))
           q = Inr (q_fill tm nt H q)"
    using Suc.IH Suc.prems by simp
  show ?case
    unfolding split for_each_append IH
    by (auto simp: tmS q_fill_def set_ent_def fun_eq_iff le_Suc_eq)
qed

lemma q_last_loop:
  assumes "nt \<noteq> 0"
  shows "for_each [1..<Suc H]
           (\<lambda>l q. if 2 * nt = 0 then Inl ZeroDivisionError
                   else Inr (set_ent q 2 l
                               (ent q 0 l + real (m * m * l * (l + 1)) / real_of_int (2 * nt))))
           q = Inr (q_correct m nt H q)"
proof (induction H)
  case 0
  show ?case by (cases q) (auto simp: q_correct_def fun_eq_iff)
next
  case (Suc H)
  have split: "[1..<Suc (Suc H)] = [1..<Suc H] @ [Suc H]" by simp
  show ?case
    unfolding split for_each_append Suc.IH
    using assms by (auto simp: q_correct_def set_ent_def fun_eq_iff le_Suc_eq)
qed

lemma q_last_loop_zero:
  "for_each [1..<Suc H]
           (\<lambda>l q. if 2 * (0::int) = 0 then Inl ZeroDivisionError
                   else Inr (set_ent q 2 l
                               (ent q 0 l + real (m * m * l * (l + 1)) / real_of_int (2 * 0))))
           q = (if H = 0 then Inr q else Inl ZeroDivisionError)"
  by (cases H) (simp_all add: upt_rec)

lemma calc_q_statistic_value:
  assumes h: "0 \<le> h" and nt: "nt \<noteq> 0"
    and tm: "\<And>l. 1 \<le> l \<Longrightarrow> l \<le> nat h \<Longrightarrow> q_tmp E x l = Inr (tm l)"
  shows "calc_q_statistic E x h nt =
           Inr (q_correct (dim1 x) nt (nat h)
                  (cumsum (scale_row (scale (q_fill tm nt (nat h) (zeros 3 (nat (h + 1))))
                                        (real_of_int nt)) 1 (real_of_int (nt + 2)))))"
proof -
  have nonneg: "\<not> h + 1 < 0" using h by simp
  have first: "for_each [1..<Suc (nat h)]
           (\<lambda>l q. case q_tmp E x l of
                     Inl e \<Rightarrow> Inl e
                   | Inr tmp \<Rightarrow>
                       Inr (set_ent
                              (set_ent (set_ent q 0 l tmp) 1 l (tmp / real_of_int (nt - int l)))
                              2 l tmp))
           q = Inr (q_fill tm nt (nat h) q)" for q
    by (rule q_first_loop) (rule tm)
  show ?thesis
    unfolding calc_q_statistic_def Let_def
    apply (subst first)
    apply (subst q_last_loop[OF nt])
    using nonneg apply simp
    done
qed

lemma calc_q_statistic_shape:
  assumes "calc_q_statistic E x h nt = Inr q"
  shows "nrows q = 3 \<and> ncols q = nat (h + 1)"
proof -
  let ?P = "\<lambda>q. nrows q = 3 \<and> ncols q = nat (h + 1)"
  from assms obtain q1 where
    q1: "for_each [1..<Suc (nat h)]
          (\<lambda>l q. case q_tmp E x l of
                    Inl e \<Rightarrow> Inl e
                  | Inr tmp \<Rightarrow>
                      Inr (set_ent
                             (set_ent (set_ent q 0 l tmp) 1 l (tmp / real_of_int (nt - int l)))
                             2 l tmp))
          (zeros 3 (nat (h + 1))) = Inr q1"
    and q: "for_each [1..<Suc (nat h)]
              (\<lambda>l q. if 2 * nt = 0 then Inl ZeroDivisionError
                      else Inr (set_ent q 2 l
                                  (ent q 0 l
                                    + real (dim1 x * dim1 x * l * (l + 1)) / real_of_int (2 * nt))))
              (cumsum (scale_row (scale q1 (real_of_int nt)) 1 (real_of_int (nt + 2)))) = Inr q"
    unfolding calc_q_statistic_def Let_def by (auto split: if_splits sum.splits)
  have "?P q1"
    by (rule for_each_invariant[OF q1, where P = ?P])
       (auto simp: zeros_def set_ent_def split: sum.splits)
  then have "?P (cumsum (scale_row (scale q1 (real_of_int nt)) 1 (real_of_int (nt + 2))))"
    by (simp add: cumsum_def scale_row_def scale_def)
  then show ?thesis
    by (intro for_each_invariant[OF q, where P = ?P])
       (auto simp: set_ent_def split: if_splits)
qed


text \<open>
  C5 (as amended).  For a lag bound \<open>h \<ge> 0\<close> and a sample count \<open>nt\<close> that is neither zero
  nor one of the lags \<open>1..h\<close>, when the products \<^verbatim>\<open>a.dot(b)\<close> are defined with trace \<open>tm l\<close>
  at lag \<open>l\<close>, \<^verbatim>\<open>_calc_q_statistic\<close> returns a 3 by \<open>h + 1\<close> array.  Its row 0 (Box-Pierce)
  at lag \<open>l\<close> is \<open>nt\<close> times the sum of \<open>tm j\<close> over \<open>j = 1..l\<close>; its row 1 (Ljung-Box) is
  \<open>nt (nt + 2)\<close> times the sum of \<open>tm j / (nt - j)\<close>; its row 2 (Li-McLeod) is row 0 at the
  same lag plus the single term \<open>m\<^sup>2 l (l + 1) / (2 nt)\<close>, which is not accumulated over the
  lags.
\<close>

theorem calc_q_statistic_series:
  assumes h: "0 \<le> h" and nt: "nt \<noteq> 0"
    and tm: "\<forall>l\<in>{1..nat h}. q_tmp E x l = Inr (tm l)"
    and finite: "\<forall>l\<in>{1..nat h}. nt \<noteq> int l"
  shows "\<exists>q. calc_q_statistic E x h nt = Inr q \<and> nrows q = 3 \<and> ncols q = nat h + 1 \<and>
           (\<forall>l\<le>nat h.
              ent q 0 l = real_of_int nt * (\<Sum>j = 1..l. tm j) \<and>
              ent q 1 l = real_of_int nt * real_of_int (nt + 2)
                            * (\<Sum>j = 1..l. tm j / real_of_int (nt - int j)) \<and>
              ent q 2 l = ent q 0 l
                            + real (dim1 x * dim1 x * l * (l + 1)) / real_of_int (2 * nt))"
proof -
  let ?H = "nat h"
  let ?q1 = "q_fill tm nt ?H (zeros 3 (nat (h + 1)))"
  let ?q4 = "cumsum (scale_row (scale ?q1 (real_of_int nt)) 1 (real_of_int (nt + 2)))"
  let ?q = "q_correct (dim1 x) nt ?H ?q4"
  have val: "calc_q_statistic E x h nt = Inr ?q"
    using tm by (intro calc_q_statistic_value[OF h nt]) simp
  have cols: "nat (h + 1) = ?H + 1" using h by simp
  have e1: "ent ?q1 i j = (if 1 \<le> j \<and> j \<le> ?H \<and> i < 3
                            then (if i = 1 then tm j / real_of_int (nt - int j) else tm j)
                            else 0)" for i j
    by (auto simp: q_fill_def zeros_def cols)
  have row0: "ent ?q4 0 l = real_of_int nt * (\<Sum>j = 1..l. tm j)" if "l \<le> ?H" for l
  proof -
    have "ent ?q4 0 l
          = sum_list (map (\<lambda>k. if 1 \<le> k \<and> k \<le> ?H then tm k * real_of_int nt else 0) [0..<Suc l])"
      unfolding cumsum_def scale_row_def scale_def mat.sel e1
      by (intro arg_cong[where f = sum_list] map_cong) auto
    also have "\<dots> = (\<Sum>k = 1..min l ?H. tm k * real_of_int nt)"
      by (rule sum_list_upt_shift)
    also have "\<dots> = real_of_int nt * (\<Sum>j = 1..l. tm j)"
      using that by (simp add: min_absorb1 sum_distrib_left mult.commute)
    finally show ?thesis .
  qed
  have row1: "ent ?q4 1 l = real_of_int nt * real_of_int (nt + 2)
                              * (\<Sum>j = 1..l. tm j / real_of_int (nt - int j))" if "l \<le> ?H" for l
  proof -
    have "ent ?q4 1 l
          = sum_list (map (\<lambda>k. if 1 \<le> k \<and> k \<le> ?H
                                then tm k / real_of_int (nt - int k) * real_of_int nt
                                       * real_of_int (nt + 2)
                                else 0) [0..<Suc l])"
      unfolding cumsum_def scale_row_def scale_def mat.sel e1
      by (intro arg_cong[where f = sum_list] map_cong) auto
    also have "\<dots> = (\<Sum>k = 1..min l ?H. tm k / real_of_int (nt - int k) * real_of_int nt
                                       * real_of_int (nt + 2))"
      by (rule sum_list_upt_shift)
    also have "\<dots> = real_of_int nt * real_of_int (nt + 2)
                              * (\<Sum>j = 1..l. tm j / real_of_int (nt - int j))"
      using that by (simp add: min_absorb1 sum_distrib_left mult_ac)
    finally show ?thesis .
  qed
  have final0: "ent ?q 0 l = ent ?q4 0 l" for l
    by (simp add: q_correct_def)
  have final1: "ent ?q 1 l = ent ?q4 1 l" for l
    by (simp add: q_correct_def)
  have shape4: "nrows ?q4 = 3" "ncols ?q4 = ?H + 1"
    by (simp_all add: cumsum_def scale_row_def scale_def q_fill_def zeros_def cols)
  have final2: "ent ?q 2 l = ent ?q4 0 l + real (dim1 x * dim1 x * l * (l + 1)) / real_of_int (2 * nt)"
    if "l \<le> ?H" for l
  proof (cases "l = 0")
    case True
    have "ent ?q4 2 0 = 0"
      unfolding cumsum_def scale_row_def scale_def mat.sel e1 by simp
    moreover have "ent ?q4 0 0 = 0" using row0[of 0] by simp
    ultimately show ?thesis using True by (simp add: q_correct_def)
  next
    case False
    then show ?thesis using that shape4 unfolding q_correct_def by simp
  qed
  have "nrows ?q = 3" "ncols ?q = ?H + 1"
    using shape4 by (simp_all add: q_correct_def)
  then show ?thesis
    using val row0 row1 final0 final1 final2 by (intro exI[of _ ?q]) simp
qed

lemma q_tmp_example: "q_tmp white_env0 x0 l = Inr 1"
  by (simp add: q_tmp_def white_env0_def x0_def ten_of_rows_def eye_def dot_def transpose_mat_def
      trace_def)

theorem calc_q_statistic_series_witness:
  "\<exists>q. calc_q_statistic white_env0 x0 2 3 = Inr q \<and> nrows q = 3 \<and> ncols q = 3 \<and>
       ent q 0 2 = 6 \<and> ent q 1 2 = 45 / 2 \<and> ent q 2 2 = 7"
proof -
  have tm: "\<forall>l\<in>{1..nat 2}. q_tmp white_env0 x0 l = Inr ((\<lambda>l. 1) l)"
    by (simp add: q_tmp_example)
  have fin: "\<forall>l\<in>{1..nat 2}. (3::int) \<noteq> int l" by auto
  from calc_q_statistic_series[of 2 3 white_env0 x0 "\<lambda>l. 1", OF _ _ tm fin]
  obtain q where q: "calc_q_statistic white_env0 x0 2 3 = Inr q" "nrows q = 3" "ncols q = nat 2 + 1"
    and rows: "\<forall>l\<le>nat 2.
              ent q 0 l = real_of_int 3 * (\<Sum>j = 1..l. 1) \<and>
              ent q 1 l = real_of_int 3 * real_of_int (3 + 2)
                            * (\<Sum>j = 1..l. 1 / real_of_int (3 - int j)) \<and>
              ent q 2 l = ent q 0 l
                            + real (dim1 x0 * dim1 x0 * l * (l + 1)) / real_of_int (2 * 3)"
    by auto
  have two: "{Suc 0..2} = {Suc 0, 2}" by auto
  have m: "dim1 x0 = 1" by (simp add: x0_def ten_of_rows_def)
  from rows have "ent q 0 2 = 6" "ent q 1 2 = 45 / 2" "ent q 2 2 = 7"
    by (simp_all add: two m)
  with q show ?thesis by auto
qed

text \<open>
  The claim as it was stated has the correction term \<open>m\<^sup>2 l (l + 1) / (2 nt)\<close> added
  cumulatively at each lag.  With one channel, \<open>nt = 3\<close>, two lags and \<open>tmp = 1\<close> at both, the
  Li-McLeod value at lag 2 is 7: the Box-Pierce value 6 plus the one term of lag 2.  The sum of
  the terms of the lags 1 and 2 would give 6 + 1/3 + 1.
\<close>

theorem li_mcleod_not_cumulative:
  "map_sum id
     (\<lambda>q. ent q 2 2 = ent q 0 2
             + (\<Sum>l = 1..2. real (dim1 x0 * dim1 x0 * l * (l + 1)) / real_of_int (2 * 3)))
     (calc_q_statistic white_env0 x0 2 3) = Inr False"
  by code_simp

section \<open>The p-value of the whiteness test\<close>

lemma calc_q_h0_results:
  assumes "calc_q_h0 E n x h nt g = Inr (qs, g')"
  shows "length qs = n \<and> (\<forall>q\<in>set qs. nrows q = 3 \<and> ncols q = nat (h + 1))"
  using assms
proof (induction n arbitrary: g qs)
  case 0
  then show ?case by simp
next
  case (Suc n)
  obtain xp g1 where perm: "permutation E g x = (xp, g1)" by (cases "permutation E g x")
  from Suc.prems perm obtain q qs' where
    q: "calc_q_statistic E xp h nt = Inr q"
    and rest: "calc_q_h0 E n x h nt g1 = Inr (qs', g')"
    and qs: "qs = q # qs'"
    by (auto split: sum.splits prod.splits)
  show ?case
    using Suc.IH[OF rest] calc_q_statistic_shape[OF q] qs by simp
qed

lemma collect_li_mcleod_last:
  assumes "\<forall>q\<in>set qs. nrows q = 3 \<and> ncols q = Suc H"
  shows "collect qs li_mcleod_last = Inr (map (\<lambda>q. ent q 2 H) qs)"
  using assms by (induction qs) (simp_all add: li_mcleod_last_def)

lemma count_fraction:
  fixes xs :: "'a list"
  assumes "0 < n" and "length xs = n"
  shows "0 \<le> real (length (filter P xs)) / real n"
    and "real (length (filter P xs)) / real n \<le> 1"
proof -
  have "length (filter P xs) \<le> n" using assms(2) length_filter_le[of P xs] by simp
  then show "real (length (filter P xs)) / real n \<le> 1" using assms(1) by simp
  show "0 \<le> real (length (filter P xs)) / real n" by simp
qed


text \<open>
  C4.  For a positive \<^verbatim>\<open>repeats\<close> and a lag bound \<open>h \<ge> 0\<close>, once the surrogate statistics
  and the statistic of the data have been computed, \<^verbatim>\<open>test_whiteness\<close> returns: it
  raises nothing on account of \<^verbatim>\<open>repeats\<close>.  There are \<^verbatim>\<open>repeats\<close> surrogates, the
  p-value is the number of surrogates whose Li-McLeod statistic at lag \<open>h\<close> is at least
  that of the data, divided by \<^verbatim>\<open>repeats\<close>; it lies between 0 and 1 and is a multiple of
  \<open>1 / repeats\<close>.
\<close>

theorem test_whiteness_p_value:
  assumes rep: "0 < repeats" and h: "0 \<le> h"
    and nt: "nt = (int (dim2 (drop_samples data p)) - int p) * int (dim0 (drop_samples data p))"
    and surr: "calc_q_h0 E repeats (drop_samples data p) h nt g = Inr (qs, g')"
    and obs: "calc_q_statistic E (drop_samples data p) h nt = Inr qm"
  shows "\<exists>w. test_whiteness E data h p repeats get_q g = Inr (w, g') \<and>
           length qs = repeats \<and>
           p_value w
             = real (length (filter (\<lambda>q'. ent qm 2 (nat h) \<le> ent q' 2 (nat h)) qs)) / real repeats \<and>
           0 \<le> p_value w \<and> p_value w \<le> 1 \<and>
           (\<exists>k\<le>repeats. p_value w = real k * (1 / real repeats))"
proof -
  let ?H = "nat h"
  let ?obs = "ent qm 2 ?H"
  let ?sur = "map (\<lambda>q. ent q 2 ?H) qs"
  let ?count = "length (filter (\<lambda>q'. ?obs \<le> ent q' 2 ?H) qs)"
  let ?pr = "real ?count / real repeats"
  have cols: "nat (h + 1) = Suc ?H" using h by simp
  from calc_q_h0_results[OF surr] have len: "length qs = repeats"
    and shapes: "\<forall>q\<in>set qs. nrows q = 3 \<and> ncols q = Suc ?H"
    by (simp_all add: cols)
  have q0: "collect qs li_mcleod_last = Inr ?sur"
    by (rule collect_li_mcleod_last[OF shapes])
  have qlast: "li_mcleod_last qm = Inr ?obs"
    using calc_q_statistic_shape[OF obs] by (simp add: li_mcleod_last_def cols)
  have cnt: "length (filter (\<lambda>v. ?obs \<le> v) ?sur) = ?count"
    by (simp add: filter_map comp_def)
  let ?w = "if get_q then PrQ ?pr ?sur ?obs else Pr ?pr"
  have run: "test_whiteness E data h p repeats get_q g = Inr (?w, g')"
    unfolding test_whiteness_def Let_def
    using rep surr obs q0 qlast cnt nt by simp
  have pv: "p_value ?w = ?pr" by (simp add: p_value_def)
  have "?count \<le> repeats" using len length_filter_le[of _ qs] by simp
  then have "\<exists>k\<le>repeats. ?pr = real k * (1 / real repeats)"
    by (intro exI[of _ ?count]) simp
  moreover have "0 \<le> ?pr" "?pr \<le> 1"
    using count_fraction[OF rep len] by simp_all
  ultimately show ?thesis
    using run pv len by (intro exI[of _ ?w]) simp
qed

lemma drop_samples_x0: "drop_samples x0 0 = x0"
  by (simp add: drop_samples_def x0_def ten_of_rows_def)

theorem test_whiteness_p_value_witness:
  "\<exists>w. test_whiteness white_env0 x0 1 0 2 False 0 = Inr (w, 2) \<and>
       p_value w = 1 \<and> 0 \<le> p_value w \<and> p_value w \<le> 1"
proof -
  have tm: "\<forall>l\<in>{1..nat 1}. q_tmp white_env0 x0 l = Inr ((\<lambda>l. 1) l)"
    by (simp add: q_tmp_example)
  have fin: "\<forall>l\<in>{1..nat 1}. (5::int) \<noteq> int l" by auto
  from calc_q_statistic_series[of 1 5 white_env0 x0 "\<lambda>l. 1", OF _ _ tm fin]
  obtain qm where qm: "calc_q_statistic white_env0 x0 1 5 = Inr qm" by auto
  have perm: "permutation white_env0 g x0 = (x0, Suc g)" for g
    by (simp add: white_env0_def)
  have two: "(2::nat) = Suc (Suc 0)" by simp
  have surr: "calc_q_h0 white_env0 2 x0 1 5 0 = Inr ([qm, qm], 2)"
    unfolding two by (simp add: perm qm)
  have nt: "(5::int) = (int (dim2 (drop_samples x0 0)) - int 0) * int (dim0 (drop_samples x0 0))"
    by (simp add: drop_samples_x0) (simp add: x0_def ten_of_rows_def)
  from test_whiteness_p_value[of 2 1 5 x0 0 white_env0 0 "[qm, qm]" 2 qm False]
    surr qm nt
  obtain w where w: "test_whiteness white_env0 x0 1 0 2 False 0 = Inr (w, 2)"
    and pv: "p_value w
             = real (length (filter (\<lambda>q'. ent qm 2 (nat 1) \<le> ent q' 2 (nat 1)) [qm, qm])) / real 2"
    and rng: "0 \<le> p_value w" "p_value w \<le> 1"
    by (auto simp: drop_samples_x0)
  from pv have "p_value w = 1" by simp
  with w rng show ?thesis by auto
qed

section \<open>The Yule-Walker fit\<close>

lemma yw_rescov_append:
  "yw_rescov c n acms (xs @ ys) h =
     (case yw_rescov c n acms xs h of
        (Some e, h') \<Rightarrow> (Some e, h')
      | (None, h') \<Rightarrow> yw_rescov c n acms ys h')"
  by (induction xs arbitrary: h) (auto simp: Let_def split: sum.splits option.splits prod.splits)

lemma C_block_sel:
  assumes "nrows c = m * p" "1 \<le> k" "k \<le> p"
  shows "nrows (C_block c m k) = m" "ncols (C_block c m k) = ncols c"
    "ent (C_block c m k) a i = ent c ((k - 1) * m + a) i"
proof -
  obtain k' where k': "k = Suc k'" using assms(2) by (cases k) auto
  have "k * m \<le> p * m" using assms(3) by (rule mult_le_mono1)
  then have le: "k * m \<le> m * p" by (simp add: mult.commute)
  have "k - 1 \<le> k" by simp
  then have "(k - 1) * m \<le> k * m" by (rule mult_le_mono1)
  then have le': "(k - 1) * m \<le> m * p" using le by (rule order_trans)
  have mins: "min (k * m) (m * p) = k * m" "min ((k - 1) * m) (m * p) = (k - 1) * m"
    using le le' by simp_all
  show "nrows (C_block c m k) = m"
    unfolding C_block_def rows_slice_def mat.sel assms(1) mins by (simp add: k')
  show "ncols (C_block c m k) = ncols c" by (simp add: C_block_def rows_slice_def)
  show "ent (C_block c m k) a i = ent c ((k - 1) * m + a) i"
    using le' by (simp add: C_block_def rows_slice_def assms(1) min_absorb1)
qed

lemma yw_rescov_run:
  assumes len: "length acms = p + 1"
    and shapes: "\<forall>i\<le>p. nrows (mats h (acms ! i)) = m \<and> ncols (mats h (acms ! i)) = m"
    and distinct0: "\<forall>k\<in>{1..p}. acms ! k \<noteq> acms ! 0"
    and c: "nrows c = m * p" "ncols c = m"
    and q: "q \<le> p"
  shows "\<exists>R. yw_rescov c m acms [0..<q] h = (None, h\<lparr>mats := (mats h)(acms ! 0 := R)\<rparr>) \<and>
           nrows R = m \<and> ncols R = m \<and>
           (\<forall>i<m. \<forall>j<m. ent R i j =
              ent (mats h (acms ! 0)) i j
                - (\<Sum>k = 1..q. \<Sum>a<m. ent (C_block c m k) a i * ent (mats h (acms ! k)) a j))"
  using q
proof (induction q)
  case 0
  have "h\<lparr>mats := (mats h)(acms ! 0 := mats h (acms ! 0))\<rparr> = h" by simp
  then show ?case using shapes by (intro exI[of _ "mats h (acms ! 0)"]) simp
next
  case (Suc q)
  have "q \<le> p" using Suc.prems by simp
  from Suc.IH[OF this] obtain R where
    run: "yw_rescov c m acms [0..<q] h = (None, h\<lparr>mats := (mats h)(acms ! 0 := R)\<rparr>)"
    and R: "nrows R = m" "ncols R = m"
    and Rent: "\<forall>i<m. \<forall>j<m. ent R i j =
              ent (mats h (acms ! 0)) i j
                - (\<Sum>k = 1..q. \<Sum>a<m. ent (C_block c m k) a i * ent (mats h (acms ! k)) a j)"
    by blast
  let ?h = "h\<lparr>mats := (mats h)(acms ! 0 := R)\<rparr>"
  let ?A = "mats h (acms ! Suc q)"
  have neq: "acms ! Suc q \<noteq> acms ! 0" using distinct0 Suc.prems by auto
  have A: "nrows ?A = m" "ncols ?A = m" using shapes Suc.prems by auto
  have acm: "acm_at ?h acms (int q + 1) = Inr ?A"
    using len Suc.prems neq by (simp add: acm_at_def nat_add_distrib)
  have blk: "rows_slice c (q * m) (q * m + m) = C_block c m (Suc q)"
    by (simp add: C_block_def add.commute)
  have bs: "nrows (C_block c m (Suc q)) = m" "ncols (C_block c m (Suc q)) = m"
    using C_block_sel[OF c(1), of "Suc q"] Suc.prems c(2) by simp_all
  let ?X = "Mat m m (\<lambda>i j. sum_list (map (\<lambda>k. ent (C_block c m (Suc q)) k i * ent ?A k j) [0..<m]))"
  have dot: "dot (transpose_mat (C_block c m (Suc q))) ?A = Inr ?X"
    by (simp add: dot_def transpose_mat_def bs A)
  let ?R' = "Mat m m (\<lambda>i j. ent R i j - ent ?X (bidx m i) (bidx m j))"
  have isub: "isub R ?X = Inr ?R'"
    by (simp add: isub_def R)
  have step: "yw_rescov c m acms [q] ?h = (None, h\<lparr>mats := (mats h)(acms ! 0 := ?R')\<rparr>)"
    by (simp add: acm blk dot isub Let_def)
  have split: "[0..<Suc q] = [0..<q] @ [q]" by simp
  have total: "yw_rescov c m acms [0..<Suc q] h = (None, h\<lparr>mats := (mats h)(acms ! 0 := ?R')\<rparr>)"
    unfolding split yw_rescov_append run using step by simp
  have ent: "ent ?R' i j = ent (mats h (acms ! 0)) i j
                - (\<Sum>k = 1..Suc q. \<Sum>a<m. ent (C_block c m k) a i * ent (mats h (acms ! k)) a j)"
    if "i < m" "j < m" for i j
  proof -
    have b: "bidx m i = i" "bidx m j = j" using that by (auto simp: bidx_def)
    show ?thesis
      using Rent that by (simp add: b sum_list_upt_sum)
  qed
  have "nrows ?R' = m" "ncols ?R' = m" by simp_all
  with total ent show ?case by blast
qed

lemma yw_coef_layout:
  assumes c: "nrows c = m * p" "ncols c = m" and m: "0 < m" and p: "0 < p"
  shows "\<exists>cc. collect [0..<m] (\<lambda>i. rows_step c i m) = Inr (map (\<lambda>i. Mat p m (\<lambda>a j. ent c (i + a * m) j)) [0..<m]) \<and>
           vstack (map (\<lambda>i. Mat p m (\<lambda>a j. ent c (i + a * m) j)) [0..<m]) = Inr cc \<and>
           nrows cc = m * p \<and> ncols cc = m \<and>
           (\<forall>k\<in>{1..p}. \<exists>B. cols_step (transpose_mat cc) (k - 1) p = Inr B \<and>
                 mat_eq B (transpose_mat (C_block c m k)))"
proof -
  let ?parts = "map (\<lambda>i. Mat p m (\<lambda>a j. ent c (i + a * m) j)) [0..<m]"
  have parts: "collect [0..<m] (\<lambda>i. rows_step c i m) = Inr ?parts"
  proof (rule collect_Inr)
    fix i assume "i \<in> set [0..<m]"
    then have i: "i < m" by simp
    have "step_count (nrows c) i m = p"
      using step_count_exact[OF i, of p] by (simp add: c mult.commute)
    then show "rows_step c i m = Inr (Mat p m (\<lambda>a j. ent c (i + a * m) j))"
      using m by (simp add: rows_step_def c)
  qed
  have ne: "?parts \<noteq> []" using m by simp
  have uni: "\<forall>B\<in>set ?parts. nrows B = p \<and> ncols B = m" by auto
  from vstack_uniform[OF ne uni] obtain cc where
    cc: "vstack ?parts = Inr cc" "nrows cc = length ?parts * p" "ncols cc = m"
    and ccent: "\<forall>i<length ?parts. \<forall>a<p. \<forall>j. ent cc (i * p + a) j = ent (?parts ! i) a j"
    by blast
  have ccent': "ent cc (i * p + a) j = ent c (i + a * m) j" if "i < m" "a < p" for i a j
    using ccent that by simp
  have blocks: "\<exists>B. cols_step (transpose_mat cc) (k - 1) p = Inr B \<and>
                 mat_eq B (transpose_mat (C_block c m k))" if k: "k \<in> {1..p}" for k
  proof -
    have k1: "1 \<le> k" "k \<le> p" "k - 1 < p" using k by auto
    have cnt: "step_count (ncols (transpose_mat cc)) (k - 1) p = m"
      using step_count_exact[OF k1(3), of m] by (simp add: transpose_mat_def cc)
    let ?B = "Mat m m (\<lambda>i j. ent (transpose_mat cc) i (k - 1 + j * p))"
    have B: "cols_step (transpose_mat cc) (k - 1) p = Inr ?B"
      using p cnt by (simp add: cols_step_def) (simp add: transpose_mat_def cc)
    have "ent ?B i j = ent (transpose_mat (C_block c m k)) i j" if "i < m" "j < m" for i j
    proof -
      have "ent ?B i j = ent cc (j * p + (k - 1)) i"
        by (simp add: transpose_mat_def add.commute)
      also have "\<dots> = ent c (j + (k - 1) * m) i"
        using ccent'[OF that(2) k1(3)] .
      also have "\<dots> = ent (transpose_mat (C_block c m k)) i j"
        using C_block_sel(3)[OF c(1) k1(1,2)] by (simp add: transpose_mat_def add.commute)
      finally show ?thesis .
    qed
    then have "mat_eq ?B (transpose_mat (C_block c m k))"
      using C_block_sel(1,2)[OF c(1) k1(1,2)] c(2)
      by (simp add: mat_eq_def transpose_mat_def)
    with B show ?thesis by blast
  qed
  have "nrows cc = m * p" using cc(2) by simp
  with parts cc(1,3) blocks show ?thesis by blast
qed

lemma from_yw_run:
  assumes p: "0 < var_p self"
    and len: "length acms = var_p self + 1"
    and shapes: "\<forall>i\<le>var_p self. nrows (mats h (acms ! i)) = m \<and> ncols (mats h (acms ! i)) = m"
    and m: "0 < m"
    and distinct0: "\<forall>k\<in>{1..var_p self}. acms ! k \<noteq> acms ! 0"
    and alloc: "acms ! 0 < mtop h"
    and sys: "yw_system h acms (var_p self) = Inr (rr, r)"
    and solve: "solve rr r = Inr c"
    and c: "nrows c = m * var_p self" "ncols c = m"
  shows "\<exists>R cc. from_yw solve h self acms =
             (Inr (self\<lparr>coef := Some (mtop h), rescov := Some (acms ! 0)\<rparr>),
              h\<lparr>mats := ((mats h)(acms ! 0 := R))(mtop h := transpose_mat cc),
                mtop := Suc (mtop h)\<rparr>) \<and>
           nrows R = m \<and> ncols R = m \<and>
           (\<forall>i<m. \<forall>j<m. ent R i j =
              ent (mats h (acms ! 0)) i j
                - (\<Sum>k = 1..var_p self. \<Sum>a<m. ent (C_block c m k) a i * ent (mats h (acms ! k)) a j)) \<and>
           nrows cc = m * var_p self \<and> ncols cc = m \<and>
           (\<forall>k\<in>{1..var_p self}. \<exists>B. cols_step (transpose_mat cc) (k - 1) (var_p self) = Inr B \<and>
                 mat_eq B (transpose_mat (C_block c m k)))"
proof -
  let ?p = "var_p self"
  have m0: "nrows (mats h (acms ! 0)) = m" using shapes by simp
  from yw_rescov_run[OF len shapes distinct0 c order_refl] obtain R where
    run: "yw_rescov c m acms [0..<?p] h = (None, h\<lparr>mats := (mats h)(acms ! 0 := R)\<rparr>)"
    and R: "nrows R = m" "ncols R = m"
    and Rent: "\<forall>i<m. \<forall>j<m. ent R i j =
              ent (mats h (acms ! 0)) i j
                - (\<Sum>k = 1..?p. \<Sum>a<m. ent (C_block c m k) a i * ent (mats h (acms ! k)) a j)"
    by blast
  from yw_coef_layout[OF c m p] obtain cc where
    parts: "collect [0..<m] (\<lambda>i. rows_step c i m)
              = Inr (map (\<lambda>i. Mat ?p m (\<lambda>a j. ent c (i + a * m) j)) [0..<m])"
    and cc: "vstack (map (\<lambda>i. Mat ?p m (\<lambda>a j. ent c (i + a * m) j)) [0..<m]) = Inr cc"
      "nrows cc = m * ?p" "ncols cc = m"
    and blocks: "\<forall>k\<in>{1..?p}. \<exists>B. cols_step (transpose_mat cc) (k - 1) ?p = Inr B \<and>
                 mat_eq B (transpose_mat (C_block c m k))"
    by blast
  have "from_yw solve h self acms =
             (Inr (self\<lparr>coef := Some (mtop h), rescov := Some (acms ! 0)\<rparr>),
              h\<lparr>mats := ((mats h)(acms ! 0 := R))(mtop h := transpose_mat cc),
                mtop := Suc (mtop h)\<rparr>)"
    unfolding from_yw_def Let_def
    by (simp add: len sys solve m0 run parts cc(1) alloc_mat_def)
  with R Rent cc(2,3) blocks show ?thesis by blast
qed

lemma yw_inputs:
  "mats heap_yw 0 = acm0_yw" "mats heap_yw (Suc 0) = acm1_yw" "mtop heap_yw = 2"
  by (simp_all add: heap_yw_def heap0_def alloc_mat_def)

lemma yw_system_example: "yw_system heap_yw [0, 1] 1 = Inr (acm0_yw, acm1_yw)"
  by (simp add: yw_system_def yw_inputs acm_at_def homogeneous_def)

lemma solve_example: "solve_diag acm0_yw acm1_yw = Inr c_yw"
  by (simp add: solve_diag_def c_yw_def acm0_yw_def acm1_yw_def mat_of_rows_def numeral_2_eq_2)

lemma yw_shapes:
  "\<forall>i\<le>var_p var_yw. nrows (mats heap_yw ([0, 1] ! i)) = 2 \<and> ncols (mats heap_yw ([0, 1] ! i)) = 2"
proof (intro allI impI)
  fix i assume "i \<le> var_p var_yw"
  then have "i = 0 \<or> i = Suc 0" by (auto simp: var_yw_def init_def)
  then show "nrows (mats heap_yw ([0, 1] ! i)) = 2 \<and> ncols (mats heap_yw ([0, 1] ! i)) = 2"
    by (auto simp: yw_inputs acm0_yw_def acm1_yw_def mat_of_rows_def)
qed

lemma var_yw_order: "var_p var_yw = 1"
  by (simp add: var_yw_def init_def)

lemma yw_hyps:
  "0 < var_p var_yw" "length [0, 1::nat] = var_p var_yw + 1" "(0::nat) < 2"
  "\<forall>k\<in>{1..var_p var_yw}. [0, 1::nat] ! k \<noteq> [0, 1] ! 0"
  "[0, 1::nat] ! 0 < mtop heap_yw"
  "yw_system heap_yw [0, 1] (var_p var_yw) = Inr (acm0_yw, acm1_yw)"
  "nrows c_yw = 2 * var_p var_yw" "ncols c_yw = 2"
proof -
  show "yw_system heap_yw [0, 1] (var_p var_yw) = Inr (acm0_yw, acm1_yw)"
    unfolding var_yw_order by (rule yw_system_example)
qed (simp_all add: var_yw_order yw_inputs c_yw_def)


text \<open>
  C2.  For a model of order \<open>p \<ge> 1\<close> and \<open>p + 1\<close> autocorrelation matrices of shape \<open>m\<close> by \<open>m\<close>
  (\<open>m \<ge> 1\<close>, the array of lag 0 in the store and not the array of another lag), when the
  solve of the block Toeplitz system succeeds with a solution \<open>c\<close> of shape \<open>m p\<close> by \<open>m\<close>,
  \<^verbatim>\<open>from_yw\<close> returns a model whose residual covariance is \<open>acm(0)\<close> minus the sum over
  \<open>k = 1..p\<close> of the transpose of the block of lag \<open>k\<close> of \<open>c\<close> times \<open>acm(k)\<close>, and whose
  coefficient array yields under \<^verbatim>\<open>coef[:, (k - 1)::p]\<close>, for every lag \<open>k\<close> in \<open>1..p\<close>, an
  \<open>m\<close> by \<open>m\<close> array: the transpose of the block of lag \<open>k\<close> of the solution.
\<close>

theorem from_yw_result:
  assumes "0 < var_p self"
    and "length acms = var_p self + 1"
    and "\<forall>i\<le>var_p self. nrows (mats h (acms ! i)) = m \<and> ncols (mats h (acms ! i)) = m"
    and "0 < m"
    and "\<forall>k\<in>{1..var_p self}. acms ! k \<noteq> acms ! 0"
    and "acms ! 0 < mtop h"
    and "yw_system h acms (var_p self) = Inr (rr, r)"
    and "solve rr r = Inr c"
    and "nrows c = m * var_p self" and "ncols c = m"
  shows "\<exists>self' h' cv ca.
           from_yw solve h self acms = (Inr self', h') \<and>
           rescov self' = Some cv \<and> coef self' = Some ca \<and>
           nrows (mats h' cv) = m \<and> ncols (mats h' cv) = m \<and>
           (\<forall>i<m. \<forall>j<m.
              ent (mats h' cv) i j =
                ent (mats h (acms ! 0)) i j
                  - (\<Sum>k = 1..var_p self.
                       \<Sum>a<m. ent (C_block c m k) a i * ent (mats h (acms ! k)) a j)) \<and>
           (\<forall>k\<in>{1..var_p self}.
              \<exists>B. cols_step (mats h' ca) (k - 1) (var_p self) = Inr B \<and>
                  nrows B = m \<and> ncols B = m \<and>
                  mat_eq B (transpose_mat (C_block c m k)))"
proof -
  from from_yw_run[where solve = solve, OF assms] obtain R cc where
    run: "from_yw solve h self acms =
             (Inr (self\<lparr>coef := Some (mtop h), rescov := Some (acms ! 0)\<rparr>),
              h\<lparr>mats := ((mats h)(acms ! 0 := R))(mtop h := transpose_mat cc),
                mtop := Suc (mtop h)\<rparr>)"
    and R: "nrows R = m" "ncols R = m"
      "\<forall>i<m. \<forall>j<m. ent R i j =
              ent (mats h (acms ! 0)) i j
                - (\<Sum>k = 1..var_p self. \<Sum>a<m. ent (C_block c m k) a i * ent (mats h (acms ! k)) a j)"
    and blocks: "\<forall>k\<in>{1..var_p self}. \<exists>B. cols_step (transpose_mat cc) (k - 1) (var_p self) = Inr B \<and>
                 mat_eq B (transpose_mat (C_block c m k))"
    by blast
  let ?self = "self\<lparr>coef := Some (mtop h), rescov := Some (acms ! 0)\<rparr>"
  let ?h = "h\<lparr>mats := ((mats h)(acms ! 0 := R))(mtop h := transpose_mat cc), mtop := Suc (mtop h)\<rparr>"
  have ne: "acms ! 0 \<noteq> mtop h" using assms(6) by simp
  have cv: "mats ?h (acms ! 0) = R" using ne by simp
  have ca: "mats ?h (mtop h) = transpose_mat cc" by simp
  have blocks': "\<forall>k\<in>{1..var_p self}.
              \<exists>B. cols_step (mats ?h (mtop h)) (k - 1) (var_p self) = Inr B \<and>
                  nrows B = m \<and> ncols B = m \<and>
                  mat_eq B (transpose_mat (C_block c m k))"
  proof
    fix k assume k: "k \<in> {1..var_p self}"
    with blocks obtain B where B: "cols_step (transpose_mat cc) (k - 1) (var_p self) = Inr B"
      "mat_eq B (transpose_mat (C_block c m k))" by blast
    have k1: "1 \<le> k" "k \<le> var_p self" using k by auto
    have "nrows B = m" "ncols B = m"
      using B(2) C_block_sel(1,2)[OF assms(9) k1] assms(10)
      by (simp_all add: mat_eq_def transpose_mat_def)
    with B show "\<exists>B. cols_step (mats ?h (mtop h)) (k - 1) (var_p self) = Inr B \<and>
                  nrows B = m \<and> ncols B = m \<and>
                  mat_eq B (transpose_mat (C_block c m k))"
      unfolding ca by blast
  qed
  have fields: "rescov ?self = Some (acms ! 0)" "coef ?self = Some (mtop h)" by simp_all
  have Rh: "nrows (mats ?h (acms ! 0)) = m" "ncols (mats ?h (acms ! 0)) = m"
    "\<forall>i<m. \<forall>j<m. ent (mats ?h (acms ! 0)) i j =
              ent (mats h (acms ! 0)) i j
                - (\<Sum>k = 1..var_p self. \<Sum>a<m. ent (C_block c m k) a i * ent (mats h (acms ! k)) a j)"
    using R by (simp_all only: cv)
  show ?thesis
    by (intro exI[of _ ?self] exI[of _ ?h] exI[of _ "acms ! 0"] exI[of _ "mtop h"] conjI
        run fields Rh blocks')
qed

theorem from_yw_result_witness:
  "\<exists>self' h'. from_yw solve_diag heap_yw var_yw [0, 1] = (Inr self', h') \<and>
      rescov self' = Some 0 \<and> ent (mats h' 0) 0 0 = 3 / 2 \<and> ent (mats h' 0) 1 1 = 15 / 4 \<and>
      ent (mats h' 0) 0 1 = 0"
proof -
  from from_yw_result[where solve = solve_diag, OF yw_hyps(1,2) yw_shapes yw_hyps(3,4,5,6) solve_example yw_hyps(7,8)]
  obtain self' h' cv ca where
    run: "from_yw solve_diag heap_yw var_yw [0, 1] = (Inr self', h')"
    and cv: "rescov self' = Some cv"
    and ent: "\<forall>i<2. \<forall>j<2.
              ent (mats h' cv) i j =
                ent (mats heap_yw ([0, 1] ! 0)) i j
                  - (\<Sum>k = 1..var_p var_yw.
                       \<Sum>a<2. ent (C_block c_yw 2 k) a i * ent (mats heap_yw ([0, 1] ! k)) a j)"
    by blast
  have cv0: "cv = 0"
    using run cv
    by (auto simp: from_yw_def var_yw_def init_def Let_def
        split: if_splits sum.splits prod.splits option.splits)
  note p1 = var_yw_order
  have blk: "ent (C_block c_yw 2 (Suc 0)) a i = ent c_yw a i" for a i
    by (simp add: C_block_def rows_slice_def c_yw_def)
  have two: "{..<2::nat} = {0, 1}" by auto
  have e: "ent (mats h' 0) i j = ent acm0_yw i j - (\<Sum>a<2. ent c_yw a i * ent acm1_yw a j)"
    if "i < 2" "j < 2" for i j
    using ent that by (simp add: cv0 p1 yw_inputs blk)
  have "ent (mats h' 0) 0 0 = 3 / 2" "ent (mats h' 0) 1 1 = 15 / 4" "ent (mats h' 0) 0 1 = 0"
    by (simp_all add: e two c_yw_def acm0_yw_def acm1_yw_def mat_of_rows_def)
  with run cv cv0 show ?thesis by blast
qed


text \<open>
  C10.  Under the same conditions \<^verbatim>\<open>from_yw\<close> changes the caller's sequence in place: on
  return the array \<^verbatim>\<open>acms[0]\<close> holds its former value minus the sum over \<open>k = 1..p\<close> of
  the transposed block of lag \<open>k\<close> times \<open>acm(k)\<close>, the field \<^verbatim>\<open>rescov\<close> of the model is
  the reference \<^verbatim>\<open>acms[0]\<close> itself and not a new array, and no other array that existed
  before the call has changed.
\<close>

theorem from_yw_overwrites_acm0:
  assumes "0 < var_p self"
    and "length acms = var_p self + 1"
    and "\<forall>i\<le>var_p self. nrows (mats h (acms ! i)) = m \<and> ncols (mats h (acms ! i)) = m"
    and "0 < m"
    and "\<forall>k\<in>{1..var_p self}. acms ! k \<noteq> acms ! 0"
    and "acms ! 0 < mtop h"
    and "yw_system h acms (var_p self) = Inr (rr, r)"
    and "solve rr r = Inr c"
    and "nrows c = m * var_p self" and "ncols c = m"
  shows "\<exists>self' h'.
           from_yw solve h self acms = (Inr self', h') \<and>
           rescov self' = Some (acms ! 0) \<and>
           (\<forall>i<m. \<forall>j<m.
              ent (mats h' (acms ! 0)) i j =
                ent (mats h (acms ! 0)) i j
                  - (\<Sum>k = 1..var_p self.
                       \<Sum>a<m. ent (C_block c m k) a i * ent (mats h (acms ! k)) a j)) \<and>
           (\<forall>x<mtop h. x \<noteq> acms ! 0 \<longrightarrow> mats h' x = mats h x)"
proof -
  from from_yw_run[where solve = solve, OF assms] obtain R cc where
    run: "from_yw solve h self acms =
             (Inr (self\<lparr>coef := Some (mtop h), rescov := Some (acms ! 0)\<rparr>),
              h\<lparr>mats := ((mats h)(acms ! 0 := R))(mtop h := transpose_mat cc),
                mtop := Suc (mtop h)\<rparr>)"
    and R: "\<forall>i<m. \<forall>j<m. ent R i j =
              ent (mats h (acms ! 0)) i j
                - (\<Sum>k = 1..var_p self. \<Sum>a<m. ent (C_block c m k) a i * ent (mats h (acms ! k)) a j)"
    by blast
  let ?self = "self\<lparr>coef := Some (mtop h), rescov := Some (acms ! 0)\<rparr>"
  let ?h = "h\<lparr>mats := ((mats h)(acms ! 0 := R))(mtop h := transpose_mat cc), mtop := Suc (mtop h)\<rparr>"
  have ne: "acms ! 0 \<noteq> mtop h" using assms(6) by simp
  have cv: "mats ?h (acms ! 0) = R" using ne by simp
  have field: "rescov ?self = Some (acms ! 0)" by simp
  have Rh: "\<forall>i<m. \<forall>j<m. ent (mats ?h (acms ! 0)) i j =
              ent (mats h (acms ! 0)) i j
                - (\<Sum>k = 1..var_p self. \<Sum>a<m. ent (C_block c m k) a i * ent (mats h (acms ! k)) a j)"
    using R by (simp only: cv)
  have frame: "\<forall>x<mtop h. x \<noteq> acms ! 0 \<longrightarrow> mats ?h x = mats h x" by simp
  show ?thesis
    by (intro exI[of _ ?self] exI[of _ ?h] conjI run field Rh frame)
qed

theorem from_yw_overwrites_acm0_witness:
  "\<exists>self' h'. from_yw solve_diag heap_yw var_yw [0, 1] = (Inr self', h') \<and>
      rescov self' = Some 0 \<and>
      ent (mats heap_yw 0) 0 0 = 2 \<and> ent (mats h' 0) 0 0 = 3 / 2 \<and>
      mats h' 1 = mats heap_yw 1"
proof -
  from from_yw_overwrites_acm0[where solve = solve_diag, OF yw_hyps(1,2) yw_shapes yw_hyps(3,4,5,6) solve_example yw_hyps(7,8)]
  obtain self' h' where
    run: "from_yw solve_diag heap_yw var_yw [0, 1] = (Inr self', h')"
    and cv: "rescov self' = Some ([0, 1] ! 0)"
    and ent: "\<forall>i<2. \<forall>j<2.
              ent (mats h' ([0, 1] ! 0)) i j =
                ent (mats heap_yw ([0, 1] ! 0)) i j
                  - (\<Sum>k = 1..var_p var_yw.
                       \<Sum>a<2. ent (C_block c_yw 2 k) a i * ent (mats heap_yw ([0, 1] ! k)) a j)"
    and frame: "\<forall>x<mtop heap_yw. x \<noteq> [0, 1] ! 0 \<longrightarrow> mats h' x = mats heap_yw x"
    by blast
  note p1 = var_yw_order
  have blk: "ent (C_block c_yw 2 (Suc 0)) a i = ent c_yw a i" for a i
    by (simp add: C_block_def rows_slice_def c_yw_def)
  have two: "{..<2::nat} = {0, 1}" by auto
  have "ent (mats h' 0) 0 0 = ent acm0_yw 0 0 - (\<Sum>a<2. ent c_yw a 0 * ent acm1_yw a 0)"
    using ent by (simp add: p1 yw_inputs blk)
  then have a: "ent (mats h' 0) 0 0 = 3 / 2"
    by (simp add: two c_yw_def acm0_yw_def acm1_yw_def mat_of_rows_def)
  have b: "ent (mats heap_yw 0) 0 0 = 2"
    by (simp add: yw_inputs acm0_yw_def mat_of_rows_def)
  have c: "mats h' 1 = mats heap_yw 1" using frame by (simp add: yw_inputs)
  from run cv a b c show ?thesis by auto
qed


text \<open>
  C8.  When the number of autocorrelation matrices differs from \<open>p + 1\<close>, \<^verbatim>\<open>from_yw\<close>
  raises the \<^verbatim>\<open>ValueError\<close> of its own length check, whatever the solver would do, and
  leaves the store as it was.
\<close>

theorem from_yw_length_mismatch:
  assumes "length acms \<noteq> var_p self + 1"
  shows "from_yw solve h self acms = (Inl ValueError, h)"
  using assms by (simp add: from_yw_def)

theorem from_yw_length_mismatch_witness:
  "from_yw solve_diag heap_yw (init False 2 (Some 1) None) [0, 1] = (Inl ValueError, heap_yw)"
  using from_yw_length_mismatch[of "[0, 1]" "init False 2 (Some 1) None" solve_diag heap_yw]
  by (simp add: init_def)

end
